theory Spec2Isabelle
  imports Complex_Main "HOL-Library.AList" "HOL-Library.List_Lexorder" "HOL-Library.Sublist"
begin

section \<open>Python values\<close>

text \<open>
  The script \<^verbatim>\<open>Tools/actions_pr_changelog_to_discord.py\<close> works on the values that
  \<^verbatim>\<open>yaml.safe_load\<close> returns. A Python \<^verbatim>\<open>str\<close> is a sequence of Unicode code points and
  \<^verbatim>\<open>len\<close> counts code points, so a string is a list of code point numbers (integers, as
  \<^verbatim>\<open>ord\<close> gives them). A \<^verbatim>\<open>dict\<close> is an association list in insertion order (keys are
  strings, as \<^verbatim>\<open>ChangelogEntry = dict[str, Any]\<close> says; Python keeps them pairwise distinct,
  and a lookup takes the first match).
  Floating point numbers, dates and byte strings are left out of the value type.
\<close>

type_synonym pystr = "int list"

datatype pyval =
    PNone
  | PBool bool
  | PInt int
  | PStr pystr
  | PList "pyval list"
  | PDict "(pystr \<times> pyval) list"

type_synonym ChangelogEntry = "(pystr \<times> pyval) list"

datatype error =
    TypeError
  | ValueError
  | OverflowError
  | RequestException
  | HTTPError int

text \<open>An ASCII literal of the source as a Python string.\<close>

definition ascii :: "string \<Rightarrow> pystr" where
  "ascii s = map of_char s"

text \<open>
  Python's \<^verbatim>\<open>==\<close> on these values: \<^verbatim>\<open>bool\<close> is a subclass of \<^verbatim>\<open>int\<close> (\<^verbatim>\<open>True == 1\<close>), lists are
  compared element by element and dicts by key set and value per key, whatever the insertion
  order. \<open>py_canon\<close> maps a value to the representative of its equality class; values that
  are equal hash equally, so the representative is also the key under which a \<^verbatim>\<open>set\<close>, a
  \<^verbatim>\<open>dict\<close> or a \<^verbatim>\<open>Counter\<close> files a hashable value.
\<close>

definition dict_canon :: "(pystr \<times> pyval) list \<Rightarrow> (pystr \<times> pyval) list" where
  "dict_canon kvs = sort_key fst (AList.clearjunk kvs)"

primrec py_canon :: "pyval \<Rightarrow> pyval" where
  "py_canon PNone = PNone"
| "py_canon (PBool b) = PInt (if b then 1 else 0)"
| "py_canon (PInt i) = PInt i"
| "py_canon (PStr s) = PStr s"
| "py_canon (PList xs) = PList (map py_canon xs)"
| "py_canon (PDict kvs) = PDict (dict_canon (map (map_prod id py_canon) kvs))"

definition py_eq :: "pyval \<Rightarrow> pyval \<Rightarrow> bool" where
  "py_eq a b = (py_canon a = py_canon b)"

text \<open>Lists and dicts are unhashable: using one as a set element raises \<^verbatim>\<open>TypeError\<close>.\<close>

fun py_hashable :: "pyval \<Rightarrow> bool" where
  "py_hashable (PList xs) = False"
| "py_hashable (PDict kvs) = False"
| "py_hashable v = True"

text \<open>Truth value of a Python object, as used by \<^verbatim>\<open>x or y\<close> and \<^verbatim>\<open>if not x\<close>.\<close>

fun py_truthy :: "pyval \<Rightarrow> bool" where
  "py_truthy PNone = False"
| "py_truthy (PBool b) = b"
| "py_truthy (PInt i) = (i \<noteq> 0)"
| "py_truthy (PStr s) = (s \<noteq> [])"
| "py_truthy (PList xs) = (xs \<noteq> [])"
| "py_truthy (PDict kvs) = (kvs \<noteq> [])"

definition py_or :: "pyval \<Rightarrow> pyval \<Rightarrow> pyval" where
  "py_or a b = (if py_truthy a then a else b)"

text \<open>\<^verbatim>\<open>d.get(key)\<close>: the value stored under the key, \<^verbatim>\<open>None\<close> when the key is missing.\<close>

definition dict_get :: "(pystr \<times> pyval) list \<Rightarrow> pystr \<Rightarrow> pyval" where
  "dict_get d k = (case map_of d k of None \<Rightarrow> PNone | Some v \<Rightarrow> v)"

text \<open>\<^verbatim>\<open>set(xs)\<close> hashes every element, and raises at an unhashable one.\<close>

definition py_set :: "pyval list \<Rightarrow> error + pyval set" where
  "py_set xs = (if list_all py_hashable xs then Inr (set (map py_canon xs)) else Inl TypeError)"

text \<open>\<^verbatim>\<open>Counter(xs)\<close> maps each element to its number of occurrences; an absent key has no entry.\<close>

definition py_Counter :: "pyval list \<Rightarrow> (pyval \<rightharpoonup> nat)" where
  "py_Counter xs = (\<lambda>k. let n = count_list (map py_canon xs) k in if n = 0 then None else Some n)"

definition counts_get :: "(pyval \<rightharpoonup> nat) \<Rightarrow> pyval \<Rightarrow> nat \<Rightarrow> nat" where
  "counts_get m k d = (case m (py_canon k) of None \<Rightarrow> d | Some n \<Rightarrow> n)"

section \<open>The delta engine: \<^verbatim>\<open>diff_entries\<close>\<close>

definition entry_id :: "ChangelogEntry \<Rightarrow> pyval" where
  "entry_id e = dict_get e (ascii ''id'')"

text \<open>\<^verbatim>\<open>[e.get("id") for e in entries if e.get("id") is not None]\<close>\<close>

definition ids_of :: "ChangelogEntry list \<Rightarrow> pyval list" where
  "ids_of entries = map entry_id (filter (\<lambda>e. entry_id e \<noteq> PNone) entries)"

text \<open>The first loop over \<^verbatim>\<open>new_entries\<close> (lines 251 to 257).\<close>

fun added_loop :: "pyval set \<Rightarrow> ChangelogEntry list \<Rightarrow> ChangelogEntry list" where
  "added_loop old_id_set [] = []"
| "added_loop old_id_set (entry # rest) =
     (if entry_id entry = PNone then added_loop old_id_set rest
      else if py_canon (entry_id entry) \<notin> old_id_set then entry # added_loop old_id_set rest
      else added_loop old_id_set rest)"

text \<open>The loop that fills \<^verbatim>\<open>old_unique_by_id\<close> (lines 263 to 269).\<close>

fun old_unique_loop ::
  "(pyval \<rightharpoonup> nat) \<Rightarrow> (pyval \<rightharpoonup> ChangelogEntry) \<Rightarrow> ChangelogEntry list \<Rightarrow> (pyval \<rightharpoonup> ChangelogEntry)" where
  "old_unique_loop old_counts old_unique_by_id [] = old_unique_by_id"
| "old_unique_loop old_counts old_unique_by_id (entry # rest) =
     (if entry_id entry = PNone then old_unique_loop old_counts old_unique_by_id rest
      else if counts_get old_counts (entry_id entry) 0 = 1
        then old_unique_loop old_counts (old_unique_by_id(py_canon (entry_id entry) \<mapsto> entry)) rest
      else old_unique_loop old_counts old_unique_by_id rest)"

text \<open>The second loop over \<^verbatim>\<open>new_entries\<close> (lines 271 to 284).\<close>

fun modified_loop ::
  "(pyval \<rightharpoonup> nat) \<Rightarrow> (pyval \<rightharpoonup> nat) \<Rightarrow> (pyval \<rightharpoonup> ChangelogEntry) \<Rightarrow> ChangelogEntry list
     \<Rightarrow> ChangelogEntry list" where
  "modified_loop old_counts new_counts old_unique_by_id [] = []"
| "modified_loop old_counts new_counts old_unique_by_id (entry # rest) =
     (if entry_id entry = PNone then modified_loop old_counts new_counts old_unique_by_id rest
      else if counts_get old_counts (entry_id entry) 0 \<noteq> 1
              \<or> counts_get new_counts (entry_id entry) 0 \<noteq> 1
        then modified_loop old_counts new_counts old_unique_by_id rest
      else (case old_unique_by_id (py_canon (entry_id entry)) of
              None \<Rightarrow> modified_loop old_counts new_counts old_unique_by_id rest
            | Some old_entry \<Rightarrow>
                if \<not> py_eq (PDict old_entry) (PDict entry)
                then entry # modified_loop old_counts new_counts old_unique_by_id rest
                else modified_loop old_counts new_counts old_unique_by_id rest))"

text \<open>The last loop, over \<^verbatim>\<open>old_entries\<close> (lines 287 to 294).\<close>

fun removed_loop :: "pyval set \<Rightarrow> ChangelogEntry list \<Rightarrow> ChangelogEntry list" where
  "removed_loop new_id_set [] = []"
| "removed_loop new_id_set (entry # rest) =
     (if entry_id entry = PNone then removed_loop new_id_set rest
      else if py_canon (entry_id entry) \<notin> new_id_set then entry # removed_loop new_id_set rest
      else removed_loop new_id_set rest)"

text \<open>
  \<^verbatim>\<open>diff_entries\<close> returns \<open>(added, modified, removed)\<close>, or raises \<^verbatim>\<open>TypeError\<close> when
  \<^verbatim>\<open>set(old_ids)\<close> or \<^verbatim>\<open>set(new_ids)\<close> meets an unhashable id. Once both sets are built every
  id has been hashed, so the later lookups cannot raise.
\<close>

definition diff_entries ::
  "ChangelogEntry list \<Rightarrow> ChangelogEntry list
     \<Rightarrow> error + (ChangelogEntry list \<times> ChangelogEntry list \<times> ChangelogEntry list)" where
  "diff_entries old_entries new_entries =
     (let old_ids = ids_of old_entries;
          new_ids = ids_of new_entries
      in case py_set old_ids of
           Inl err \<Rightarrow> Inl err
         | Inr old_id_set \<Rightarrow>
             (case py_set new_ids of
                Inl err \<Rightarrow> Inl err
              | Inr new_id_set \<Rightarrow>
                  (let added = added_loop old_id_set new_entries;
                       old_counts = py_Counter old_ids;
                       new_counts = py_Counter new_ids;
                       old_unique_by_id = old_unique_loop old_counts Map.empty old_entries;
                       modified = modified_loop old_counts new_counts old_unique_by_id new_entries;
                       removed = removed_loop new_id_set old_entries
                   in Inr (added, modified, removed))))"

subsection \<open>The vocabulary of the delta claims\<close>

text \<open>
  The number of entries of a list that carry a given id: entries without an id do not count,
  and ids are compared with Python's equality.
\<close>

definition id_multiplicity :: "ChangelogEntry list \<Rightarrow> pyval \<Rightarrow> nat" where
  "id_multiplicity entries v =
     length (filter (\<lambda>e. entry_id e \<noteq> PNone \<and> py_eq (entry_id e) v) entries)"

text \<open>Every id of the list can be a set element.\<close>

definition ids_hashable :: "ChangelogEntry list \<Rightarrow> bool" where
  "ids_hashable entries = list_all (\<lambda>e. py_hashable (entry_id e)) entries"

text \<open>The entry has an id, and no entry of the other list has that id.\<close>

definition id_absent_from :: "ChangelogEntry list \<Rightarrow> ChangelogEntry \<Rightarrow> bool" where
  "id_absent_from other e = (entry_id e \<noteq> PNone
      \<and> \<not> (\<exists>x\<in>set other. entry_id x \<noteq> PNone \<and> py_eq (entry_id x) (entry_id e)))"

text \<open>
  The entry has an id that one entry of the old list and one entry of the new list carry, and
  the old entry with that id differs from it.
\<close>

definition is_modified :: "ChangelogEntry list \<Rightarrow> ChangelogEntry list \<Rightarrow> ChangelogEntry \<Rightarrow> bool" where
  "is_modified old new e = (entry_id e \<noteq> PNone
      \<and> id_multiplicity old (entry_id e) = 1 \<and> id_multiplicity new (entry_id e) = 1
      \<and> (\<exists>ol\<in>set old. entry_id ol \<noteq> PNone \<and> py_eq (entry_id ol) (entry_id e)
              \<and> \<not> py_eq (PDict ol) (PDict e)))"

subsection \<open>Example entries\<close>

definition mk_change :: "string \<Rightarrow> string \<Rightarrow> pyval" where
  "mk_change ty msg = PDict [(ascii ''type'', PStr (ascii ty)), (ascii ''message'', PStr (ascii msg))]"

definition mk_entry :: "int \<Rightarrow> string \<Rightarrow> pyval list \<Rightarrow> ChangelogEntry" where
  "mk_entry i author changes =
     [(ascii ''author'', PStr (ascii author)), (ascii ''changes'', PList changes), (ascii ''id'', PInt i)]"

definition ex_old :: "ChangelogEntry list" where
  "ex_old = [mk_entry 1 ''A'' [mk_change ''Fix'' ''x''], mk_entry 2 ''B'' [mk_change ''Add'' ''y'']]"

definition ex_new :: "ChangelogEntry list" where
  "ex_new = [mk_entry 1 ''A'' [mk_change ''Fix'' ''z''], mk_entry 3 ''C'' [mk_change ''Tweak'' ''w'']]"

text \<open>A list with a duplicated id and an entry without id.\<close>

definition ex_dup :: "ChangelogEntry list" where
  "ex_dup = [mk_entry 1 ''A'' [mk_change ''Fix'' ''a''], mk_entry 1 ''A'' [mk_change ''Fix'' ''b''],
             [(ascii ''author'', PStr (ascii ''B''))], mk_entry 2 ''B'' []]"

text \<open>An entry whose id is a YAML sequence.\<close>

definition ex_list_id :: "ChangelogEntry list" where
  "ex_list_id = [[(ascii ''id'', PList [PInt 1])]]"

section \<open>Strings\<close>

text \<open>\<^verbatim>\<open>sep.join(parts)\<close>; it serves for lists of lines as well.\<close>

fun py_join :: "'a list \<Rightarrow> 'a list list \<Rightarrow> 'a list" where
  "py_join sep [] = []"
| "py_join sep [p] = p"
| "py_join sep (p # q # ps) = p @ sep @ py_join sep (q # ps)"

text \<open>
  The code points for which \<^verbatim>\<open>str.isspace\<close> holds; \<^verbatim>\<open>strip\<close> and \<^verbatim>\<open>rstrip\<close> without argument
  remove them.
\<close>

definition is_space :: "int \<Rightarrow> bool" where
  "is_space c = ((9 \<le> c \<and> c \<le> 13) \<or> (28 \<le> c \<and> c \<le> 32) \<or> c = 133 \<or> c = 160 \<or> c = 5760
      \<or> (8192 \<le> c \<and> c \<le> 8202) \<or> c = 8232 \<or> c = 8233 \<or> c = 8239 \<or> c = 8287 \<or> c = 12288)"

definition py_lstrip :: "pystr \<Rightarrow> pystr" where
  "py_lstrip s = dropWhile is_space s"

definition py_rstrip :: "pystr \<Rightarrow> pystr" where
  "py_rstrip s = rev (dropWhile is_space (rev s))"

definition py_strip :: "pystr \<Rightarrow> pystr" where
  "py_strip s = py_rstrip (py_lstrip s)"

text \<open>\<^verbatim>\<open>str(n)\<close> for an integer: decimal digits, with a minus sign when negative.\<close>

fun str_nat :: "nat \<Rightarrow> pystr" where
  "str_nat n = (if n < 10 then [48 + int n] else str_nat (n div 10) @ [48 + int (n mod 10)])"

declare str_nat.simps [simp del]

definition str_int :: "int \<Rightarrow> pystr" where
  "str_int i = (if i < 0 then 45 # str_nat (nat (- i)) else str_nat (nat i))"

text \<open>
  \<^verbatim>\<open>str(v)\<close>. The text Python prints for a list or a dict quotes and escapes the strings inside
  by the Unicode character database; it is the parameter \<open>repr\<close>.
\<close>

fun py_str :: "(pyval \<Rightarrow> pystr) \<Rightarrow> pyval \<Rightarrow> pystr" where
  "py_str repr PNone = ascii ''None''"
| "py_str repr (PBool b) = (if b then ascii ''True'' else ascii ''False'')"
| "py_str repr (PInt i) = str_int i"
| "py_str repr (PStr s) = s"
| "py_str repr (PList xs) = repr (PList xs)"
| "py_str repr (PDict kvs) = repr (PDict kvs)"

text \<open>\<^verbatim>\<open>d.get(key, default)\<close> on a dict with string keys.\<close>

definition get_or :: "('k \<rightharpoonup> 'v) \<Rightarrow> 'k \<Rightarrow> 'v \<Rightarrow> 'v" where
  "get_or d k dflt = (case d k of None \<Rightarrow> dflt | Some v \<Rightarrow> v)"

section \<open>The summary formatter\<close>

definition DISCORD_SPLIT_LIMIT :: nat where
  "DISCORD_SPLIT_LIMIT = 2000"

definition TYPES_TO_EMOJI :: "(pystr \<times> pystr) list" where
  "TYPES_TO_EMOJI =
     [(ascii ''Fix'', [128027]), (ascii ''Add'', [127381]),
      (ascii ''Remove'', [10060]), (ascii ''Tweak'', [9874, 65039])]"

definition TYPES_TO_UA :: "(pystr \<times> pystr) list" where
  "TYPES_TO_UA =
     [(ascii ''Fix'', [1042, 1080, 1087, 1088, 1072, 1074, 1083, 1077, 1085, 1086]),
      (ascii ''Add'', [1044, 1086, 1076, 1072, 1085, 1086]),
      (ascii ''Remove'', [1042, 1080, 1076, 1072, 1083, 1077, 1085, 1086]),
      (ascii ''Tweak'', [1047, 1084, 1110, 1085, 1077, 1085, 1086])]"

text \<open>The question mark emoji, the author and label used when none is given, the ellipsis marker.\<close>

definition UNKNOWN_EMOJI :: pystr where
  "UNKNOWN_EMOJI = [10067]"

definition UNKNOWN_UA :: pystr where
  "UNKNOWN_UA = [1053, 1077, 1074, 1110, 1076, 1086, 1084, 1086]"

definition ELLIPSIS :: pystr where
  "ELLIPSIS = ascii '' [...]''"

text \<open>
  \<^verbatim>\<open>text[: DISCORD_SPLIT_LIMIT - 100].rstrip() + " [...]"\<close> when the text is longer than the limit:
  the statement stands twice in the source, for a message (line 409) and for a line (line 480).
\<close>

definition truncate_line :: "pystr \<Rightarrow> pystr" where
  "truncate_line s =
     (if length s > DISCORD_SPLIT_LIMIT
      then py_rstrip (take (DISCORD_SPLIT_LIMIT - 100) s) @ ELLIPSIS
      else s)"

subsection \<open>\<^verbatim>\<open>count_change_types\<close> and \<^verbatim>\<open>render_change_type_summary\<close>\<close>

text \<open>\<^verbatim>\<open>str(change.get("type") or "")\<close>\<close>

definition change_type_of :: "(pyval \<Rightarrow> pystr) \<Rightarrow> (pystr \<times> pyval) list \<Rightarrow> pystr" where
  "change_type_of repr change = py_str repr (py_or (dict_get change (ascii ''type'')) (PStr []))"

text \<open>The loop over the changes of one entry (lines 322 to 330).\<close>

fun count_changes_loop ::
  "(pyval \<Rightarrow> pystr) \<Rightarrow> (pystr \<rightharpoonup> int) \<Rightarrow> pyval list \<Rightarrow> (pystr \<rightharpoonup> int)" where
  "count_changes_loop repr counts [] = counts"
| "count_changes_loop repr counts (change # rest) =
     (case change of
        PDict d \<Rightarrow>
          (let change_type = change_type_of repr d
           in if change_type = [] then count_changes_loop repr counts rest
              else count_changes_loop repr
                     (counts(change_type \<mapsto> get_or counts change_type 0 + 1)) rest)
      | _ \<Rightarrow> count_changes_loop repr counts rest)"

text \<open>The loop over the entries (lines 317 to 330).\<close>

fun count_entries_loop ::
  "(pyval \<Rightarrow> pystr) \<Rightarrow> (pystr \<rightharpoonup> int) \<Rightarrow> ChangelogEntry list \<Rightarrow> (pystr \<rightharpoonup> int)" where
  "count_entries_loop repr counts [] = counts"
| "count_entries_loop repr counts (entry # rest) =
     (case dict_get entry (ascii ''changes'') of
        PList changes \<Rightarrow> count_entries_loop repr (count_changes_loop repr counts changes) rest
      | _ \<Rightarrow> count_entries_loop repr counts rest)"

definition count_change_types :: "(pyval \<Rightarrow> pystr) \<Rightarrow> ChangelogEntry list \<Rightarrow> (pystr \<rightharpoonup> int)" where
  "count_change_types repr entries =
     count_entries_loop repr
       (map_of [(ascii ''Add'', 0), (ascii ''Fix'', 0), (ascii ''Remove'', 0), (ascii ''Tweak'', 0)])
       entries"

text \<open>The loop over the four types of the summary (lines 303 to 309).\<close>

fun summary_parts_loop :: "(pystr \<rightharpoonup> int) \<Rightarrow> pystr list \<Rightarrow> pystr list" where
  "summary_parts_loop counts [] = []"
| "summary_parts_loop counts (change_type # rest) =
     (let count = get_or counts change_type 0
      in if count = 0 then summary_parts_loop counts rest
         else (get_or (map_of TYPES_TO_EMOJI) change_type UNKNOWN_EMOJI @ ascii '' '' @ str_int count)
                # summary_parts_loop counts rest)"

definition render_change_type_summary :: "(pyval \<Rightarrow> pystr) \<Rightarrow> ChangelogEntry list \<Rightarrow> pystr" where
  "render_change_type_summary repr entries =
     (let counts = count_change_types repr entries;
          parts = summary_parts_loop counts
                    [ascii ''Add'', ascii ''Fix'', ascii ''Remove'', ascii ''Tweak'']
      in py_join [32, 8226, 32] parts)"

subsection \<open>\<^verbatim>\<open>changelog_entries_to_message_lines\<close>\<close>

text \<open>\<^verbatim>\<open>str(entry.get("author") or "...")\<close>, with the sentinel author of the source.\<close>

definition entry_author :: "(pyval \<Rightarrow> pystr) \<Rightarrow> ChangelogEntry \<Rightarrow> pystr" where
  "entry_author repr entry = py_str repr (py_or (dict_get entry (ascii ''author'')) (PStr UNKNOWN_UA))"

text \<open>
  \<^verbatim>\<open>by_author.setdefault(author, []).append(entry)\<close> on an \<^verbatim>\<open>OrderedDict\<close>: an association list
  in insertion order; a new key goes to the end.
\<close>

fun setdefault_append ::
  "(pystr \<times> ChangelogEntry list) list \<Rightarrow> pystr \<Rightarrow> ChangelogEntry \<Rightarrow> (pystr \<times> ChangelogEntry list) list" where
  "setdefault_append [] author entry = [(author, [entry])]"
| "setdefault_append ((k, es) # rest) author entry =
     (if k = author then (k, es @ [entry]) # rest
      else (k, es) # setdefault_append rest author entry)"

fun by_author_loop ::
  "(pyval \<Rightarrow> pystr) \<Rightarrow> (pystr \<times> ChangelogEntry list) list \<Rightarrow> ChangelogEntry list
     \<Rightarrow> (pystr \<times> ChangelogEntry list) list" where
  "by_author_loop repr by_author [] = by_author"
| "by_author_loop repr by_author (entry # rest) =
     by_author_loop repr (setdefault_append by_author (entry_author repr entry) entry) rest"

text \<open>\<^verbatim>\<open>str(change.get("message") or "")\<close>, before it is stripped.\<close>

definition message_text :: "(pyval \<Rightarrow> pystr) \<Rightarrow> (pystr \<times> pyval) list \<Rightarrow> pystr" where
  "message_text repr change = py_str repr (py_or (dict_get change (ascii ''message'')) (PStr []))"

text \<open>
  The body of the loop over the changes (lines 400 to 412) for a change that is a dict: the
  line it appends, or \<open>None\<close> when it reaches \<^verbatim>\<open>continue\<close>.
\<close>

definition change_line :: "(pyval \<Rightarrow> pystr) \<Rightarrow> (pystr \<times> pyval) list \<Rightarrow> pystr option" where
  "change_line repr change =
     (let change_type = change_type_of repr change;
          emoji = get_or (map_of TYPES_TO_EMOJI) change_type UNKNOWN_EMOJI;
          label = get_or (map_of TYPES_TO_UA) change_type
                    (if change_type \<noteq> [] then change_type else UNKNOWN_UA);
          message = py_strip (message_text repr change)
      in if message = [] then None
         else Some ([8226, 32] @ emoji @ ascii '' '' @ label @ ascii '': ''
                      @ truncate_line message @ [10]))"

fun changes_loop :: "(pyval \<Rightarrow> pystr) \<Rightarrow> pyval list \<Rightarrow> pystr list" where
  "changes_loop repr [] = []"
| "changes_loop repr (change # rest) =
     (case change of
        PDict d \<Rightarrow>
          (case change_line repr d of
             None \<Rightarrow> changes_loop repr rest
           | Some line \<Rightarrow> line # changes_loop repr rest)
      | _ \<Rightarrow> changes_loop repr rest)"

fun author_entries_loop :: "(pyval \<Rightarrow> pystr) \<Rightarrow> ChangelogEntry list \<Rightarrow> pystr list" where
  "author_entries_loop repr [] = []"
| "author_entries_loop repr (entry # rest) =
     (case dict_get entry (ascii ''changes'') of
        PList changes \<Rightarrow> changes_loop repr changes @ author_entries_loop repr rest
      | _ \<Rightarrow> author_entries_loop repr rest)"

text \<open>\<^verbatim>\<open>f"**{author}**:\n"\<close>\<close>

definition author_header :: "pystr \<Rightarrow> pystr" where
  "author_header author = ascii ''**'' @ author @ ascii ''**:'' @ [10]"

text \<open>The loop over \<^verbatim>\<open>by_author.items()\<close> (lines 383 to 412), with its flag \<^verbatim>\<open>first\<close>.\<close>

fun authors_loop ::
  "(pyval \<Rightarrow> pystr) \<Rightarrow> bool \<Rightarrow> (pystr \<times> ChangelogEntry list) list \<Rightarrow> pystr list" where
  "authors_loop repr first [] = []"
| "authors_loop repr first ((author, author_entries) # rest) =
     (if \<not> first then [[10]] else [])
       @ [author_header author]
       @ author_entries_loop repr author_entries
       @ authors_loop repr False rest"

definition changelog_entries_to_message_lines ::
  "(pyval \<Rightarrow> pystr) \<Rightarrow> ChangelogEntry list \<Rightarrow> pystr list" where
  "changelog_entries_to_message_lines repr entries =
     authors_loop repr True (by_author_loop repr [] entries)"

subsection \<open>The vocabulary of the formatter claims\<close>

text \<open>Every change item (a dict in a \<^verbatim>\<open>changes\<close> list) of the entries, in order.\<close>

fun dict_items :: "pyval list \<Rightarrow> (pystr \<times> pyval) list list" where
  "dict_items [] = []"
| "dict_items (PDict d # rest) = d # dict_items rest"
| "dict_items (v # rest) = dict_items rest"

fun change_items :: "ChangelogEntry list \<Rightarrow> (pystr \<times> pyval) list list" where
  "change_items [] = []"
| "change_items (entry # rest) =
     (case dict_get entry (ascii ''changes'') of
        PList changes \<Rightarrow> dict_items changes @ change_items rest
      | _ \<Rightarrow> change_items rest)"

text \<open>The tally of a type: the number of change items of that type.\<close>

definition type_tally :: "(pyval \<Rightarrow> pystr) \<Rightarrow> pystr \<Rightarrow> ChangelogEntry list \<Rightarrow> int" where
  "type_tally repr t entries =
     int (length (filter (\<lambda>d. change_type_of repr d = t) (change_items entries)))"

text \<open>The elements of a list in the order of their first appearance.\<close>

primrec first_appearance :: "'a list \<Rightarrow> 'a list" where
  "first_appearance [] = []"
| "first_appearance (x # xs) = x # filter (\<lambda>y. y \<noteq> x) (first_appearance xs)"

text \<open>The entries grouped by author, the authors in the order of their first appearance.\<close>

definition author_groups ::
  "(pyval \<Rightarrow> pystr) \<Rightarrow> ChangelogEntry list \<Rightarrow> (pystr \<times> ChangelogEntry list) list" where
  "author_groups repr entries =
     map (\<lambda>a. (a, filter (\<lambda>e. entry_author repr e = a) entries))
       (first_appearance (map (entry_author repr) entries))"

subsection \<open>Example entries with an unrecognized type\<close>

definition ex_typed :: "ChangelogEntry list" where
  "ex_typed = [mk_entry 1 ''A'' [mk_change ''Add'' ''x'', mk_change ''Bogus'' ''y''],
               mk_entry 2 ''B'' [mk_change ''Fix'' ''z'', mk_change ''Bogus'' ''w'']]"

text \<open>Entries of two authors and one without author; one message is blank.\<close>

definition ex_authors :: "ChangelogEntry list" where
  "ex_authors =
     [mk_entry 1 ''B'' [mk_change ''Fix'' ''b1''],
      mk_entry 2 ''A'' [mk_change ''Add'' ''a1'', mk_change ''Add'' ''   ''],
      mk_entry 3 ''B'' [mk_change ''Tweak'' ''b2''],
      [(ascii ''changes'', PList [mk_change ''Remove'' ''gone'']), (ascii ''id'', PInt 4)]]"

definition ex_blank :: "(pystr \<times> pyval) list" where
  "ex_blank = [(ascii ''type'', PStr (ascii ''Add'')), (ascii ''message'', PStr (ascii ''   ''))]"

section \<open>The delivery pipeline\<close>

subsection \<open>Durations and \<^verbatim>\<open>time.sleep\<close>\<close>

text \<open>
  A Python \<^verbatim>\<open>float\<close> as far as the script's control flow reads it: a finite number (the real
  it denotes), an infinity, or not a number. \<^verbatim>\<open>float("inf")\<close> and \<^verbatim>\<open>float("nan")\<close> are floats, so
  the delay of the environment and a retry-after value can be any of them.
\<close>

datatype pyfloat = Finite real | PosInf | NegInf | NaN

text \<open>
  \<^verbatim>\<open>time.sleep(secs)\<close> for a finite \<open>secs\<close> that is not negative: it raises \<^verbatim>\<open>OverflowError\<close> when
  the duration does not fit the platform's time type. The largest duration that fits is the
  parameter \<open>sleep_max\<close>. The result is the number of seconds slept.
\<close>

definition time_sleep :: "real \<Rightarrow> real \<Rightarrow> error + real" where
  "time_sleep sleep_max secs = (if secs > sleep_max then Inl OverflowError else Inr secs)"

text \<open>
  \<^verbatim>\<open>time.sleep(max(x, 0.0))\<close>. \<^verbatim>\<open>max\<close> keeps its first argument unless the second is greater, so
  not-a-number stays and makes \<^verbatim>\<open>time.sleep\<close> raise \<^verbatim>\<open>ValueError\<close>; an infinite duration
  raises \<^verbatim>\<open>OverflowError\<close>.
\<close>

fun sleep_max0 :: "real \<Rightarrow> pyfloat \<Rightarrow> error + real" where
  "sleep_max0 sleep_max (Finite r) = time_sleep sleep_max (max r 0)"
| "sleep_max0 sleep_max PosInf = Inl OverflowError"
| "sleep_max0 sleep_max NegInf = time_sleep sleep_max 0"
| "sleep_max0 sleep_max NaN = Inl ValueError"

subsection \<open>The webhook and its replies\<close>

text \<open>
  What \<^verbatim>\<open>float(x)\<close> makes of a retry-after value: a float, or the exception it raises on a
  value that is no number.
\<close>

datatype float_conv = FloatOk pyfloat | FloatRaises error

text \<open>
  What the loop of \<^verbatim>\<open>send_discord_webhook\<close> reads of a response: the status code; the
  \<^verbatim>\<open>retry_after\<close> of the JSON body (\<open>None\<close> when \<^verbatim>\<open>resp.json()\<close> or the lookup raises, or the
  value is missing or null); the \<^verbatim>\<open>Retry-After\<close> header (\<open>None\<close> when absent).
\<close>

record response =
  status_code :: int
  body_retry_after :: "float_conv option"
  header_retry_after :: "float_conv option"

text \<open>\<^verbatim>\<open>requests.post\<close> returns a response or raises (a timeout, a connection error).\<close>

datatype reply = Reply response | PostRaises error

text \<open>\<^verbatim>\<open>get_discord_body\<close>: no mentions are parsed, and the flag \<^verbatim>\<open>1 << 2\<close> suppresses embeds.\<close>

record body =
  content :: pystr
  allowed_mentions_parse :: "pystr list"
  flags :: nat

definition get_discord_body :: "pystr \<Rightarrow> body" where
  "get_discord_body c = \<lparr>content = c, allowed_mentions_parse = [], flags = 2 ^ 2\<rparr>"

text \<open>What the script does to the world: it posts a body to the webhook, and it sleeps.\<close>

datatype event = Post body | Sleep real

text \<open>
  How a call ends: it returns, it raises, or it is still waiting for a response when the
  replies given to the model are used up.
\<close>

datatype outcome = Returned | Raised error | Waiting

text \<open>Lines 442 to 452: the float that is slept after a 429, or the exception of \<^verbatim>\<open>float\<close>.\<close>

definition retry_after_of :: "response \<Rightarrow> error + pyfloat" where
  "retry_after_of resp =
     (case body_retry_after resp of
        Some (FloatOk x) \<Rightarrow> Inr x
      | Some (FloatRaises e) \<Rightarrow> Inl e
      | None \<Rightarrow>
          (case header_retry_after resp of
             None \<Rightarrow> Inr (Finite 1)
           | Some (FloatOk x) \<Rightarrow> Inr x
           | Some (FloatRaises e) \<Rightarrow> Inl e))"

text \<open>\<^verbatim>\<open>resp.raise_for_status()\<close> raises for the client and server error codes only.\<close>

definition raise_for_status :: "response \<Rightarrow> error option" where
  "raise_for_status resp =
     (if 400 \<le> status_code resp \<and> status_code resp < 600
      then Some (HTTPError (status_code resp)) else None)"

definition then_continue ::
  "event list \<Rightarrow> outcome \<times> event list \<times> reply list \<Rightarrow> outcome \<times> event list \<times> reply list" where
  "then_continue evs r = (case r of (out, evs', rest) \<Rightarrow> (out, evs @ evs', rest))"

text \<open>
  The loop \<^verbatim>\<open>while True\<close> of \<^verbatim>\<open>send_discord_webhook\<close>, run against the replies the webhook will
  give; \<open>attempt\<close> is the counter before the iteration increments it. An exception of
  \<^verbatim>\<open>time.sleep\<close> ends the call like any other.
\<close>

fun webhook_loop ::
  "real \<Rightarrow> nat \<Rightarrow> body \<Rightarrow> reply list \<Rightarrow> outcome \<times> event list \<times> reply list" where
  "webhook_loop sleep_max attempt b [] = (Waiting, [Post b], [])"
| "webhook_loop sleep_max attempt b (PostRaises e # rs) = (Raised e, [Post b], rs)"
| "webhook_loop sleep_max attempt b (Reply resp # rs) =
     (if status_code resp = 200 \<or> status_code resp = 204 then (Returned, [Post b], rs)
      else if status_code resp = 429 then
        (case retry_after_of resp of
           Inl e \<Rightarrow> (Raised e, [Post b], rs)
         | Inr retry_after \<Rightarrow>
             (case sleep_max0 sleep_max retry_after of
                Inl e \<Rightarrow> (Raised e, [Post b], rs)
              | Inr secs \<Rightarrow>
                  then_continue [Post b, Sleep secs] (webhook_loop sleep_max (attempt + 1) b rs)))
      else if (status_code resp = 500 \<or> status_code resp = 502 \<or> status_code resp = 503
                \<or> status_code resp = 504) \<and> attempt + 1 < 6 then
        (case time_sleep sleep_max (real (min (2 ^ (attempt + 1)) 30)) of
           Inl e \<Rightarrow> (Raised e, [Post b], rs)
         | Inr secs \<Rightarrow>
             then_continue [Post b, Sleep secs] (webhook_loop sleep_max (attempt + 1) b rs))
      else
        (case raise_for_status resp of
           Some e \<Rightarrow> (Raised e, [Post b], rs)
         | None \<Rightarrow> then_continue [Post b] (webhook_loop sleep_max (attempt + 1) b rs)))"

definition send_discord_webhook ::
  "real \<Rightarrow> reply list \<Rightarrow> pystr list \<Rightarrow> outcome \<times> event list \<times> reply list" where
  "send_discord_webhook sleep_max script lines =
     webhook_loop sleep_max 0 (get_discord_body (concat lines)) script"

subsection \<open>\<^verbatim>\<open>send_message_lines\<close>\<close>

text \<open>
  A run of \<^verbatim>\<open>send_message_lines\<close>: how it ended, the chunks it passed to
  \<^verbatim>\<open>send_discord_webhook\<close> in order, what it did to the world, and the replies it left unread.
\<close>

record delivery =
  result :: outcome
  calls :: "pystr list list"
  trace :: "event list"
  unread :: "reply list"

definition after_call :: "pystr list \<Rightarrow> event list \<Rightarrow> delivery \<Rightarrow> delivery" where
  "after_call chunk evs d = d\<lparr>calls := chunk # calls d, trace := evs @ trace d\<rparr>"

text \<open>
  The loop over \<^verbatim>\<open>message_lines\<close> (lines 478 to 497) followed by the final send (lines 499 to
  501). An exception of \<^verbatim>\<open>send_discord_webhook\<close> or of \<^verbatim>\<open>time.sleep\<close> ends the run.
\<close>

fun send_loop ::
  "real \<Rightarrow> pyfloat \<Rightarrow> reply list \<Rightarrow> pystr list \<Rightarrow> nat \<Rightarrow> pystr list \<Rightarrow> delivery" where
  "send_loop sleep_max delay script chunk_lines chunk_length [] =
     (if chunk_lines \<noteq> [] then
        (case send_discord_webhook sleep_max script chunk_lines of
           (out, evs, rest) \<Rightarrow> \<lparr>result = out, calls = [chunk_lines], trace = evs, unread = rest\<rparr>)
      else \<lparr>result = Returned, calls = [], trace = [], unread = script\<rparr>)"
| "send_loop sleep_max delay script chunk_lines chunk_length (line0 # later) =
     (let line = truncate_line line0;
          line_length = length line;
          new_chunk_length = chunk_length + line_length
      in if new_chunk_length > DISCORD_SPLIT_LIMIT then
           (if chunk_lines \<noteq> [] then
              (case send_discord_webhook sleep_max script chunk_lines of
                 (out, evs, rest) \<Rightarrow>
                   if out = Returned then
                     (case sleep_max0 sleep_max delay of
                        Inl e \<Rightarrow>
                          \<lparr>result = Raised e, calls = [chunk_lines], trace = evs, unread = rest\<rparr>
                      | Inr secs \<Rightarrow>
                          after_call chunk_lines (evs @ [Sleep secs])
                            (send_loop sleep_max delay rest [line] line_length later))
                   else \<lparr>result = out, calls = [chunk_lines], trace = evs, unread = rest\<rparr>)
            else send_loop sleep_max delay script [line] line_length later)
         else send_loop sleep_max delay script (chunk_lines @ [line]) new_chunk_length later)"

definition send_message_lines :: "real \<Rightarrow> reply list \<Rightarrow> pystr list \<Rightarrow> pyfloat \<Rightarrow> delivery" where
  "send_message_lines sleep_max script message_lines message_delay_seconds =
     send_loop sleep_max message_delay_seconds script [] 0 message_lines"

subsection \<open>The vocabulary of the delivery claims\<close>

text \<open>A response with the given status and no retry-after information.\<close>

definition plain_response :: "int \<Rightarrow> reply" where
  "plain_response code = Reply \<lparr>status_code = code, body_retry_after = None, header_retry_after = None\<rparr>"

text \<open>The reply is a response with status 200 or 204.\<close>

fun is_success :: "reply \<Rightarrow> bool" where
  "is_success (Reply resp) = (status_code resp = 200 \<or> status_code resp = 204)"
| "is_success (PostRaises e) = False"

text \<open>
  The chunking as the specification words it, apart from any sending: a line is appended to
  the current chunk unless appending would make the chunk longer than the limit; then the
  current chunk, if it is not empty, is closed and a new chunk starts with exactly that line.
  At the end the current chunk, if it is not empty, is closed.
\<close>

fun pack_from :: "pystr list \<Rightarrow> pystr list \<Rightarrow> pystr list list" where
  "pack_from cur [] = (if cur = [] then [] else [cur])"
| "pack_from cur (l # ls) =
     (if length (concat cur) + length l > DISCORD_SPLIT_LIMIT
      then (if cur = [] then [] else [cur]) @ pack_from [l] ls
      else pack_from (cur @ [l]) ls)"

definition greedy_chunks :: "pystr list \<Rightarrow> pystr list list" where
  "greedy_chunks lines = pack_from [] lines"

text \<open>
  The delivery as the specification words it, apart from any chunking: the chunks are handed
  to \<^verbatim>\<open>send_discord_webhook\<close> one after the other, in order; between a chunk that was delivered
  and the next one the script sleeps the delay; the first call that does not return, or a
  sleep that raises, ends the run; after the last chunk there is no sleep.
\<close>

fun deliver_chunks :: "real \<Rightarrow> reply list \<Rightarrow> pyfloat \<Rightarrow> pystr list list \<Rightarrow> delivery" where
  "deliver_chunks sleep_max script delay [] =
     \<lparr>result = Returned, calls = [], trace = [], unread = script\<rparr>"
| "deliver_chunks sleep_max script delay [c] =
     (case send_discord_webhook sleep_max script c of
        (out, evs, rest) \<Rightarrow> \<lparr>result = out, calls = [c], trace = evs, unread = rest\<rparr>)"
| "deliver_chunks sleep_max script delay (c # c' # cs) =
     (case send_discord_webhook sleep_max script c of
        (out, evs, rest) \<Rightarrow>
          if out = Returned then
            (case sleep_max0 sleep_max delay of
               Inl e \<Rightarrow> \<lparr>result = Raised e, calls = [c], trace = evs, unread = rest\<rparr>
             | Inr secs \<Rightarrow>
                 after_call c (evs @ [Sleep secs]) (deliver_chunks sleep_max rest delay (c' # cs)))
          else \<lparr>result = out, calls = [c], trace = evs, unread = rest\<rparr>)"

text \<open>
  The number of chunks that greedy packing makes of lines of the given lengths, when the
  chunk in hand is not empty and has load \<open>v\<close>.
\<close>

fun chunk_count :: "nat \<Rightarrow> nat \<Rightarrow> nat list \<Rightarrow> nat" where
  "chunk_count limit v [] = 1"
| "chunk_count limit v (n # ns) =
     (if v + n > limit then 1 + chunk_count limit n ns else chunk_count limit (v + n) ns)"

subsection \<open>Example replies and lines\<close>

definition ex_script :: "reply list" where
  "ex_script = [plain_response 204, plain_response 204, plain_response 204]"

definition ex_lines :: "pystr list" where
  "ex_lines = [replicate 1500 120, replicate 600 121, []]"

section \<open>Properties of the delta engine\<close>

lemma added_loop_filter:
  "added_loop S es = filter (\<lambda>e. entry_id e \<noteq> PNone \<and> py_canon (entry_id e) \<notin> S) es"
  by (induction es) auto

lemma removed_loop_filter:
  "removed_loop S es = filter (\<lambda>e. entry_id e \<noteq> PNone \<and> py_canon (entry_id e) \<notin> S) es"
  by (induction es) auto

lemma counts_get_Counter:
  "counts_get (py_Counter xs) k 0 = count_list (map py_canon xs) (py_canon k)"
  by (simp add: counts_get_def py_Counter_def Let_def)

lemma count_ids_multiplicity:
  "count_list (map py_canon (ids_of es)) (py_canon v) = id_multiplicity es v"
  by (induction es) (simp_all add: ids_of_def id_multiplicity_def py_eq_def)

lemma modified_loop_filter:
  "modified_loop C D U es =
     filter (\<lambda>e. entry_id e \<noteq> PNone \<and> counts_get C (entry_id e) 0 = 1
                \<and> counts_get D (entry_id e) 0 = 1
                \<and> (\<exists>ol. U (py_canon (entry_id e)) = Some ol \<and> \<not> py_eq (PDict ol) (PDict e))) es"
  by (induction es) (simp_all split: option.splits)

lemma old_unique_loop_Some:
  "old_unique_loop C m es k = Some ol \<Longrightarrow>
     m k = Some ol \<or> (ol \<in> set es \<and> entry_id ol \<noteq> PNone \<and> py_canon (entry_id ol) = k)"
proof (induction es arbitrary: m)
  case Nil
  then show ?case by simp
next
  case (Cons x xs)
  show ?case
  proof (cases "entry_id x \<noteq> PNone \<and> counts_get C (entry_id x) 0 = 1")
    case True
    with Cons.prems have "old_unique_loop C (m(py_canon (entry_id x) \<mapsto> x)) xs k = Some ol"
      by simp
    from Cons.IH[OF this] True show ?thesis
      by (cases "k = py_canon (entry_id x)") auto
  next
    case False
    with Cons.prems have "old_unique_loop C m xs k = Some ol"
      by (simp split: if_splits)
    from Cons.IH[OF this] show ?thesis by auto
  qed
qed

lemma old_unique_loop_keeps:
  "m k \<noteq> None \<Longrightarrow> old_unique_loop C m es k \<noteq> None"
  by (induction es arbitrary: m) simp_all

lemma old_unique_loop_found:
  "e \<in> set es \<Longrightarrow> entry_id e \<noteq> PNone \<Longrightarrow> counts_get C (entry_id e) 0 = 1 \<Longrightarrow>
     old_unique_loop C m es (py_canon (entry_id e)) \<noteq> None"
proof (induction es arbitrary: m)
  case Nil
  then show ?case by simp
next
  case (Cons x xs)
  show ?case
  proof (cases "x = e")
    case True
    have "(m(py_canon (entry_id e) \<mapsto> e)) (py_canon (entry_id e)) \<noteq> None"
      by simp
    then have "old_unique_loop C (m(py_canon (entry_id e) \<mapsto> e)) xs (py_canon (entry_id e)) \<noteq> None"
      by (rule old_unique_loop_keeps)
    with True Cons.prems show ?thesis
      by simp
  next
    case False
    with Cons.prems have "e \<in> set xs" by simp
    from Cons.IH[OF this Cons.prems(2,3)] show ?thesis
      by simp
  qed
qed

lemma multiplicity_one_unique:
  assumes "id_multiplicity es v = 1"
    and "a \<in> set es" and "entry_id a \<noteq> PNone" and "py_eq (entry_id a) v"
    and "b \<in> set es" and "entry_id b \<noteq> PNone" and "py_eq (entry_id b) v"
  shows "a = b"
proof -
  let ?P = "\<lambda>e. entry_id e \<noteq> PNone \<and> py_eq (entry_id e) v"
  from assms(1) have "length (filter ?P es) = 1"
    by (simp add: id_multiplicity_def)
  then obtain x where x: "filter ?P es = [x]"
    by (cases "filter ?P es") auto
  from assms have "a \<in> set (filter ?P es)" and "b \<in> set (filter ?P es)"
    by simp_all
  with x show ?thesis by simp
qed

lemma old_unique_lookup:
  assumes "entry_id e \<noteq> PNone" and "id_multiplicity old (entry_id e) = 1"
  shows "(\<exists>ol. old_unique_loop (py_Counter (ids_of old)) Map.empty old (py_canon (entry_id e)) = Some ol
            \<and> \<not> py_eq (PDict ol) (PDict e))
         \<longleftrightarrow> (\<exists>ol\<in>set old. entry_id ol \<noteq> PNone \<and> py_eq (entry_id ol) (entry_id e)
                \<and> \<not> py_eq (PDict ol) (PDict e))"
    (is "?L \<longleftrightarrow> ?R")
proof
  assume ?L
  then obtain ol where ol: "old_unique_loop (py_Counter (ids_of old)) Map.empty old (py_canon (entry_id e)) = Some ol"
    and ne: "\<not> py_eq (PDict ol) (PDict e)" by blast
  from old_unique_loop_Some[OF ol] have "ol \<in> set old" "entry_id ol \<noteq> PNone"
    "py_eq (entry_id ol) (entry_id e)"
    by (simp_all add: py_eq_def)
  with ne show ?R by blast
next
  assume ?R
  then obtain ol where ol: "ol \<in> set old" "entry_id ol \<noteq> PNone" "py_eq (entry_id ol) (entry_id e)"
    and ne: "\<not> py_eq (PDict ol) (PDict e)" by blast
  from ol(3) have key: "py_canon (entry_id ol) = py_canon (entry_id e)"
    by (simp add: py_eq_def)
  have "counts_get (py_Counter (ids_of old)) (entry_id ol) 0 = 1"
    using assms(2) key by (simp add: counts_get_Counter count_ids_multiplicity)
  from old_unique_loop_found[OF ol(1,2) this, of Map.empty]
  obtain o2 where o2: "old_unique_loop (py_Counter (ids_of old)) Map.empty old (py_canon (entry_id e)) = Some o2"
    using key by auto
  from old_unique_loop_Some[OF o2] have "o2 \<in> set old" "entry_id o2 \<noteq> PNone"
    "py_eq (entry_id o2) (entry_id e)"
    by (simp_all add: py_eq_def)
  from multiplicity_one_unique[OF assms(2) this ol] have "o2 = ol" .
  with o2 ne show ?L by simp
qed

lemma ids_hashable_iff: "list_all py_hashable (ids_of es) = ids_hashable es"
  by (induction es) (simp_all add: ids_of_def ids_hashable_def)

lemma mem_id_set:
  "py_canon v \<in> py_canon ` set (ids_of es)
     \<longleftrightarrow> (\<exists>x\<in>set es. entry_id x \<noteq> PNone \<and> py_eq (entry_id x) v)"
  by (induction es) (auto simp: ids_of_def py_eq_def)

lemma diff_entries_eq:
  "diff_entries old new =
     (if ids_hashable old \<and> ids_hashable new
      then Inr (filter (id_absent_from old) new, filter (is_modified old new) new, filter (id_absent_from new) old)
      else Inl TypeError)"
proof -
  have m: "modified_loop (py_Counter (ids_of old)) (py_Counter (ids_of new))
             (old_unique_loop (py_Counter (ids_of old)) Map.empty old) new
           = filter (is_modified old new) new"
    unfolding modified_loop_filter
  proof (rule filter_cong[OF refl])
    fix e
    show "(entry_id e \<noteq> PNone \<and> counts_get (py_Counter (ids_of old)) (entry_id e) 0 = 1
            \<and> counts_get (py_Counter (ids_of new)) (entry_id e) 0 = 1
            \<and> (\<exists>ol. old_unique_loop (py_Counter (ids_of old)) Map.empty old (py_canon (entry_id e)) = Some ol
                   \<and> \<not> py_eq (PDict ol) (PDict e)))
          = is_modified old new e"
    proof (cases "entry_id e \<noteq> PNone \<and> id_multiplicity old (entry_id e) = 1")
      case True
      then have "entry_id e \<noteq> PNone" and "id_multiplicity old (entry_id e) = 1"
        by blast+
      from old_unique_lookup[OF this] True show ?thesis
        unfolding is_modified_def counts_get_Counter count_ids_multiplicity
        by blast
    next
      case False
      then show ?thesis
        unfolding is_modified_def counts_get_Counter count_ids_multiplicity
        by blast
    qed
  qed
  have a: "added_loop (py_canon ` set (ids_of old)) new = filter (id_absent_from old) new"
    unfolding added_loop_filter
    by (rule filter_cong[OF refl]) (simp add: id_absent_from_def mem_id_set)
  have r: "removed_loop (py_canon ` set (ids_of new)) old = filter (id_absent_from new) old"
    unfolding removed_loop_filter
    by (rule filter_cong[OF refl]) (simp add: id_absent_from_def mem_id_set)
  show ?thesis
    unfolding diff_entries_def Let_def py_set_def ids_hashable_iff
    using m a r by simp
qed

lemma py_eq_refl: "py_eq a a"
  by (simp add: py_eq_def)

lemma py_eq_sym: "py_eq a b \<Longrightarrow> py_eq b a"
  by (simp add: py_eq_def)

lemma py_eq_trans: "py_eq a b \<Longrightarrow> py_eq b c \<Longrightarrow> py_eq a c"
  by (simp add: py_eq_def)

lemma id_multiplicity_cong: "py_eq v w \<Longrightarrow> id_multiplicity es v = id_multiplicity es w"
  by (simp add: id_multiplicity_def py_eq_def)

text \<open>\<^verbatim>\<open>diff_entries\<close> returns a triple exactly when every id can be hashed.\<close>

lemma diff_entries_returns:
  "(\<exists>res. diff_entries old new = Inr res) \<longleftrightarrow> ids_hashable old \<and> ids_hashable new"
  by (simp add: diff_entries_eq)

lemma ex_diff:
  "diff_entries ex_old ex_new =
     Inr ([mk_entry 3 ''C'' [mk_change ''Tweak'' ''w'']],
          [mk_entry 1 ''A'' [mk_change ''Fix'' ''z'']],
          [mk_entry 2 ''B'' [mk_change ''Add'' ''y'']])"
  by code_simp

lemma entry_id_mk_entry: "entry_id (mk_entry i a cs) = PInt i"
  by (simp add: entry_id_def dict_get_def mk_entry_def ascii_def)

lemma ex_hashable: "ids_hashable ex_old \<and> ids_hashable ex_new"
  by (simp add: ids_hashable_def ex_old_def ex_new_def entry_id_mk_entry)

text \<open>
  Claim C1. \<^verbatim>\<open>diff_entries\<close> returns its three lists when every id can be hashed, and
  whenever it returns them no id occurs in two of them: an entry of one list and an entry of
  another never have equal ids (equal in Python's sense, which includes being the same value).
\<close>

theorem diff_entries_id_disjoint:
  "(ids_hashable old \<and> ids_hashable new \<longrightarrow> (\<exists>res. diff_entries old new = Inr res))
   \<and> (diff_entries old new = Inr (added, modified, removed) \<longrightarrow>
        (\<forall>a\<in>set added. \<forall>m\<in>set modified. \<not> py_eq (entry_id a) (entry_id m))
        \<and> (\<forall>a\<in>set added. \<forall>r\<in>set removed. \<not> py_eq (entry_id a) (entry_id r))
        \<and> (\<forall>m\<in>set modified. \<forall>r\<in>set removed. \<not> py_eq (entry_id m) (entry_id r)))"
proof (intro conjI impI)
  assume "ids_hashable old \<and> ids_hashable new"
  then show "\<exists>res. diff_entries old new = Inr res"
    by (simp add: diff_entries_eq)
next
  assume ret: "diff_entries old new = Inr (added, modified, removed)"
  then have a: "added = filter (id_absent_from old) new"
    and m: "modified = filter (is_modified old new) new"
    and r: "removed = filter (id_absent_from new) old"
    by (simp_all add: diff_entries_eq split: if_splits)
  have am: "\<not> py_eq (entry_id x) (entry_id y)" if "x \<in> set added" "y \<in> set modified" for x y
  proof
    assume eq: "py_eq (entry_id x) (entry_id y)"
    from that(2) m have "is_modified old new y" by simp
    then obtain ol where "ol \<in> set old" "entry_id ol \<noteq> PNone" "py_eq (entry_id ol) (entry_id y)"
      unfolding is_modified_def by blast
    then have "\<exists>z\<in>set old. entry_id z \<noteq> PNone \<and> py_eq (entry_id z) (entry_id x)"
      using eq py_eq_sym py_eq_trans by blast
    moreover from that(1) a have "id_absent_from old x" by simp
    ultimately show False unfolding id_absent_from_def by blast
  qed
  have ar: "\<not> py_eq (entry_id x) (entry_id y)" if "x \<in> set added" "y \<in> set removed" for x y
  proof
    assume eq: "py_eq (entry_id x) (entry_id y)"
    from that(2) r have "y \<in> set old" "entry_id y \<noteq> PNone"
      by (simp_all add: id_absent_from_def)
    then have "\<exists>z\<in>set old. entry_id z \<noteq> PNone \<and> py_eq (entry_id z) (entry_id x)"
      using eq py_eq_sym by blast
    moreover from that(1) a have "id_absent_from old x" by simp
    ultimately show False unfolding id_absent_from_def by blast
  qed
  have mr: "\<not> py_eq (entry_id x) (entry_id y)" if "x \<in> set modified" "y \<in> set removed" for x y
  proof
    assume eq: "py_eq (entry_id x) (entry_id y)"
    from that(1) m have "x \<in> set new" "entry_id x \<noteq> PNone"
      by (simp_all add: is_modified_def)
    then have "\<exists>z\<in>set new. entry_id z \<noteq> PNone \<and> py_eq (entry_id z) (entry_id y)"
      using eq by blast
    moreover from that(2) r have "id_absent_from new y" by simp
    ultimately show False unfolding id_absent_from_def by blast
  qed
  from am show "\<forall>a\<in>set added. \<forall>m\<in>set modified. \<not> py_eq (entry_id a) (entry_id m)"
    by blast
  from ar show "\<forall>a\<in>set added. \<forall>r\<in>set removed. \<not> py_eq (entry_id a) (entry_id r)"
    by blast
  from mr show "\<forall>m\<in>set modified. \<forall>r\<in>set removed. \<not> py_eq (entry_id m) (entry_id r)"
    by blast
qed

theorem diff_entries_id_disjoint_witness:
  "ids_hashable ex_old \<and> ids_hashable ex_new
   \<and> diff_entries ex_old ex_new =
     Inr ([mk_entry 3 ''C'' [mk_change ''Tweak'' ''w'']],
          [mk_entry 1 ''A'' [mk_change ''Fix'' ''z'']],
          [mk_entry 2 ''B'' [mk_change ''Add'' ''y'']])
   \<and> \<not> py_eq (entry_id (mk_entry 3 ''C'' [mk_change ''Tweak'' ''w'']))
              (entry_id (mk_entry 1 ''A'' [mk_change ''Fix'' ''z'']))
   \<and> \<not> py_eq (entry_id (mk_entry 3 ''C'' [mk_change ''Tweak'' ''w'']))
              (entry_id (mk_entry 2 ''B'' [mk_change ''Add'' ''y'']))
   \<and> \<not> py_eq (entry_id (mk_entry 1 ''A'' [mk_change ''Fix'' ''z'']))
              (entry_id (mk_entry 2 ''B'' [mk_change ''Add'' ''y'']))"
  using diff_entries_id_disjoint
          [of ex_old ex_new "[mk_entry 3 ''C'' [mk_change ''Tweak'' ''w'']]"
              "[mk_entry 1 ''A'' [mk_change ''Fix'' ''z'']]"
              "[mk_entry 2 ''B'' [mk_change ''Add'' ''y'']]"]
        ex_diff ex_hashable
  by simp

text \<open>
  Claim C2. The modified list is the new list restricted, in order, to the entries whose id is
  not null, is carried by exactly one entry of the old list and exactly one entry of the new
  list, and whose old entry with that id is not equal to them; an id whose multiplicity is not
  1 in either list is the id of no modified entry.
\<close>

theorem diff_entries_modified_iff:
  "(ids_hashable old \<and> ids_hashable new \<longrightarrow> (\<exists>res. diff_entries old new = Inr res))
   \<and> (diff_entries old new = Inr (added, modified, removed) \<longrightarrow>
        modified = filter (is_modified old new) new
        \<and> (\<forall>v. id_multiplicity old v \<noteq> 1 \<or> id_multiplicity new v \<noteq> 1
               \<longrightarrow> (\<forall>m\<in>set modified. \<not> py_eq (entry_id m) v)))"
proof (intro conjI impI)
  assume "ids_hashable old \<and> ids_hashable new"
  then show "\<exists>res. diff_entries old new = Inr res"
    by (simp add: diff_entries_eq)
next
  assume ret: "diff_entries old new = Inr (added, modified, removed)"
  then show m: "modified = filter (is_modified old new) new"
    by (simp add: diff_entries_eq split: if_splits)
  have "\<not> py_eq (entry_id x) v"
    if "id_multiplicity old v \<noteq> 1 \<or> id_multiplicity new v \<noteq> 1" "x \<in> set modified" for x v
  proof
    assume eq: "py_eq (entry_id x) v"
    from that(2) m have "id_multiplicity old (entry_id x) = 1" "id_multiplicity new (entry_id x) = 1"
      by (simp_all add: is_modified_def)
    with id_multiplicity_cong[OF eq] that(1) show False by simp
  qed
  then show "\<forall>v. id_multiplicity old v \<noteq> 1 \<or> id_multiplicity new v \<noteq> 1
               \<longrightarrow> (\<forall>m\<in>set modified. \<not> py_eq (entry_id m) v)"
    by blast
qed

theorem diff_entries_modified_iff_witness:
  "ids_hashable ex_old \<and> ids_hashable ex_new
   \<and> diff_entries ex_old ex_new =
     Inr ([mk_entry 3 ''C'' [mk_change ''Tweak'' ''w'']],
          [mk_entry 1 ''A'' [mk_change ''Fix'' ''z'']],
          [mk_entry 2 ''B'' [mk_change ''Add'' ''y'']])
   \<and> [mk_entry 1 ''A'' [mk_change ''Fix'' ''z'']] = filter (is_modified ex_old ex_new) ex_new
   \<and> id_multiplicity ex_old (PInt 3) \<noteq> 1
   \<and> \<not> py_eq (entry_id (mk_entry 1 ''A'' [mk_change ''Fix'' ''z''])) (PInt 3)"
proof -
  have m: "id_multiplicity ex_old (PInt 3) \<noteq> 1"
    by code_simp
  from diff_entries_modified_iff
         [of ex_old ex_new "[mk_entry 3 ''C'' [mk_change ''Tweak'' ''w'']]"
             "[mk_entry 1 ''A'' [mk_change ''Fix'' ''z'']]"
             "[mk_entry 2 ''B'' [mk_change ''Add'' ''y'']]"]
       m ex_diff ex_hashable
  show ?thesis by simp
qed

text \<open>
  Claim C3. The added list is the new list restricted, in order and occurrence by occurrence,
  to the entries with a non-null id that no old entry carries; the removed list is the old list
  restricted in the same way to the ids that no new entry carries. Two old entries with id 1
  and an empty new list give both entries as removed and nothing else.
\<close>

theorem diff_entries_added_removed:
  "(ids_hashable old \<and> ids_hashable new \<longrightarrow> (\<exists>res. diff_entries old new = Inr res))
   \<and> (diff_entries old new = Inr (added, modified, removed)
      \<longrightarrow> added = filter (id_absent_from old) new \<and> removed = filter (id_absent_from new) old)
   \<and> (entry_id ea = PInt 1 \<and> entry_id eb = PInt 1
      \<longrightarrow> diff_entries [ea, eb] [] = Inr ([], [], [ea, eb]))"
proof -
  have "id_multiplicity [] v = 0" for v
    by (simp add: id_multiplicity_def)
  then show ?thesis
    by (simp add: diff_entries_eq ids_hashable_def id_absent_from_def split: if_splits)
qed

theorem diff_entries_added_removed_witness:
  "ids_hashable ex_old \<and> ids_hashable ex_new
   \<and> diff_entries ex_old ex_new =
     Inr ([mk_entry 3 ''C'' [mk_change ''Tweak'' ''w'']],
          [mk_entry 1 ''A'' [mk_change ''Fix'' ''z'']],
          [mk_entry 2 ''B'' [mk_change ''Add'' ''y'']])
   \<and> [mk_entry 3 ''C'' [mk_change ''Tweak'' ''w'']] = filter (id_absent_from ex_old) ex_new
   \<and> [mk_entry 2 ''B'' [mk_change ''Add'' ''y'']] = filter (id_absent_from ex_new) ex_old
   \<and> diff_entries [mk_entry 1 ''A'' [mk_change ''Fix'' ''a''], mk_entry 1 ''A'' [mk_change ''Fix'' ''b'']] []
       = Inr ([], [], [mk_entry 1 ''A'' [mk_change ''Fix'' ''a''], mk_entry 1 ''A'' [mk_change ''Fix'' ''b'']])"
  using diff_entries_added_removed
          [of ex_old ex_new "[mk_entry 3 ''C'' [mk_change ''Tweak'' ''w'']]"
              "[mk_entry 1 ''A'' [mk_change ''Fix'' ''z'']]"
              "[mk_entry 2 ''B'' [mk_change ''Add'' ''y'']]"
              "mk_entry 1 ''A'' [mk_change ''Fix'' ''a'']" "mk_entry 1 ''A'' [mk_change ''Fix'' ''b'']"]
        ex_diff ex_hashable
  by (simp add: entry_id_mk_entry)

text \<open>
  Claim C4, as stated, fails: a list holding an entry whose id is a YAML sequence makes
  \<^verbatim>\<open>set(old_ids)\<close> raise \<^verbatim>\<open>TypeError\<close>, so nothing is returned.
\<close>

theorem diff_entries_self_counterexample:
  "diff_entries ex_list_id ex_list_id = Inl TypeError
   \<and> diff_entries ex_list_id ex_list_id \<noteq> Inr ([], [], [])"
  by (simp add: diff_entries_eq ids_hashable_def ex_list_id_def entry_id_def dict_get_def)

text \<open>
  Claim C4, amended. For every entry list whose ids are all hashable (duplicate and missing
  ids included), diffing the list against itself returns three empty lists.
\<close>

theorem diff_entries_self:
  assumes "ids_hashable l"
  shows "diff_entries l l = Inr ([], [], [])"
proof -
  have a: "filter (id_absent_from l) l = []"
    unfolding filter_empty_conv id_absent_from_def using py_eq_refl by blast
  have "\<not> is_modified l l e" if "e \<in> set l" for e
  proof
    assume md: "is_modified l l e"
    then obtain ol where ol: "ol \<in> set l" "entry_id ol \<noteq> PNone" "py_eq (entry_id ol) (entry_id e)"
      and ne: "\<not> py_eq (PDict ol) (PDict e)"
      unfolding is_modified_def by blast
    from md have one: "id_multiplicity l (entry_id e) = 1" and idn: "entry_id e \<noteq> PNone"
      unfolding is_modified_def by blast+
    from multiplicity_one_unique[OF one ol that idn py_eq_refl] have "ol = e" .
    with ne py_eq_refl show False by blast
  qed
  then have m: "filter (is_modified l l) l = []"
    unfolding filter_empty_conv by blast
  from assms a m show ?thesis
    by (simp add: diff_entries_eq)
qed

theorem diff_entries_self_witness:
  "ids_hashable ex_dup \<and> diff_entries ex_dup ex_dup = Inr ([], [], [])"
proof -
  have h: "ids_hashable ex_dup"
    by (simp add: ids_hashable_def ex_dup_def entry_id_def dict_get_def mk_entry_def ascii_def)
  from diff_entries_self [OF h] h show ?thesis by simp
qed

section \<open>Properties of the summary formatter\<close>

subsection \<open>The tallies and the summary\<close>

lemma count_changes_loop_get:
  "t \<noteq> [] \<Longrightarrow>
   get_or (count_changes_loop repr counts cs) t 0
     = get_or counts t 0 + int (length (filter (\<lambda>d. change_type_of repr d = t) (dict_items cs)))"
proof (induction cs arbitrary: counts)
  case Nil
  then show ?case by simp
next
  case (Cons c cs)
  show ?case
  proof (cases c)
    case (PDict d)
    with Cons show ?thesis
      by (simp add: Let_def get_or_def)
  qed (use Cons in simp_all)
qed

lemma count_entries_loop_get:
  "t \<noteq> [] \<Longrightarrow>
   get_or (count_entries_loop repr counts es) t 0
     = get_or counts t 0 + int (length (filter (\<lambda>d. change_type_of repr d = t) (change_items es)))"
proof (induction es arbitrary: counts)
  case Nil
  then show ?case by simp
next
  case (Cons e es)
  then show ?case
    by (cases "dict_get e (ascii ''changes'')") (simp_all add: count_changes_loop_get)
qed

lemma count_change_types_get:
  assumes "t \<noteq> []"
  shows "get_or (count_change_types repr entries) t 0 = type_tally repr t entries"
proof -
  have "get_or (map_of [(ascii ''Add'', 0), (ascii ''Fix'', 0), (ascii ''Remove'', 0), (ascii ''Tweak'', 0)]) t (0::int) = 0"
    by (simp add: get_or_def)
  with count_entries_loop_get [OF assms] show ?thesis
    unfolding count_change_types_def type_tally_def by simp
qed

lemma summary_parts_loop_eq:
  "summary_parts_loop counts ts =
     map (\<lambda>t. get_or (map_of TYPES_TO_EMOJI) t UNKNOWN_EMOJI @ ascii '' '' @ str_int (get_or counts t 0))
       (filter (\<lambda>t. get_or counts t 0 \<noteq> 0) ts)"
  by (induction ts) (simp_all add: Let_def)

lemma canonical_types_nonempty:
  "ascii ''Add'' \<noteq> []" "ascii ''Fix'' \<noteq> []" "ascii ''Remove'' \<noteq> []" "ascii ''Tweak'' \<noteq> []"
  by (simp_all add: ascii_def)

text \<open>
  Claim C5. The summary joins, in the order Add, Fix, Remove, Tweak, one part per type whose
  tally over all change items of all entries is not zero, and nothing else: the string is
  determined by the four tallies. \<^verbatim>\<open>count_change_types\<close> tallies every type that is not empty,
  the unrecognized ones too.
\<close>

theorem render_change_type_summary_canonical:
  "render_change_type_summary repr entries =
     py_join [32, 8226, 32]
       (map (\<lambda>t. get_or (map_of TYPES_TO_EMOJI) t UNKNOWN_EMOJI @ ascii '' ''
                  @ str_int (type_tally repr t entries))
          (filter (\<lambda>t. type_tally repr t entries \<noteq> 0)
             [ascii ''Add'', ascii ''Fix'', ascii ''Remove'', ascii ''Tweak'']))
   \<and> (\<forall>t. t \<noteq> [] \<longrightarrow> get_or (count_change_types repr entries) t 0 = type_tally repr t entries)"
proof -
  have "summary_parts_loop (count_change_types repr entries)
          [ascii ''Add'', ascii ''Fix'', ascii ''Remove'', ascii ''Tweak'']
        = map (\<lambda>t. get_or (map_of TYPES_TO_EMOJI) t UNKNOWN_EMOJI @ ascii '' ''
                  @ str_int (type_tally repr t entries))
            (filter (\<lambda>t. type_tally repr t entries \<noteq> 0)
               [ascii ''Add'', ascii ''Fix'', ascii ''Remove'', ascii ''Tweak''])"
    unfolding summary_parts_loop_eq
    by (simp add: count_change_types_get canonical_types_nonempty)
  then show ?thesis
    by (simp add: render_change_type_summary_def Let_def count_change_types_get)
qed

theorem render_change_type_summary_canonical_witness:
  "ascii ''Bogus'' \<noteq> []
   \<and> get_or (count_change_types (\<lambda>v. []) ex_typed) (ascii ''Bogus'') 0 = 2
   \<and> render_change_type_summary (\<lambda>v. []) ex_typed
       = [127381, 32, 49, 32, 8226, 32, 128027, 32, 49]"
proof -
  have ne: "ascii ''Bogus'' \<noteq> []"
    by (simp add: ascii_def)
  have t: "type_tally (\<lambda>v. []) (ascii ''Bogus'') ex_typed = 2"
    by code_simp
  have r: "py_join [32, 8226, 32]
       (map (\<lambda>t. get_or (map_of TYPES_TO_EMOJI) t UNKNOWN_EMOJI @ ascii '' ''
                  @ str_int (type_tally (\<lambda>v. []) t ex_typed))
          (filter (\<lambda>t. type_tally (\<lambda>v. []) t ex_typed \<noteq> 0)
             [ascii ''Add'', ascii ''Fix'', ascii ''Remove'', ascii ''Tweak'']))
       = [127381, 32, 49, 32, 8226, 32, 128027, 32, 49]"
    by code_simp
  from render_change_type_summary_canonical [of "\<lambda>v. []" ex_typed] ne t r show ?thesis
    by simp
qed

subsection \<open>Grouping by author\<close>

lemma set_first_appearance: "set (first_appearance xs) = set xs"
  by (induction xs) auto

lemma distinct_first_appearance: "distinct (first_appearance xs)"
  by (induction xs) (simp_all add: set_first_appearance)

lemma first_appearance_snoc:
  "first_appearance (xs @ [y]) = (if y \<in> set xs then first_appearance xs else first_appearance xs @ [y])"
  by (induction xs) auto

lemma setdefault_append_new:
  "k \<notin> set ks \<Longrightarrow>
   setdefault_append (map (\<lambda>a. (a, f a)) ks) k e = map (\<lambda>a. (a, f a)) ks @ [(k, [e])]"
  by (induction ks) auto

lemma setdefault_append_old:
  "distinct ks \<Longrightarrow> k \<in> set ks \<Longrightarrow>
   setdefault_append (map (\<lambda>a. (a, f a)) ks) k e
     = map (\<lambda>a. (a, if a = k then f a @ [e] else f a)) ks"
proof (induction ks)
  case Nil
  then show ?case by simp
next
  case (Cons x xs)
  show ?case
  proof (cases "x = k")
    case True
    with Cons.prems have "k \<notin> set xs" by simp
    then have "map (\<lambda>a. (a, f a)) xs = map (\<lambda>a. (a, if a = k then f a @ [e] else f a)) xs"
      by (intro map_cong) auto
    with True show ?thesis by simp
  next
    case False
    with Cons show ?thesis by simp
  qed
qed

lemma author_groups_snoc:
  "setdefault_append (author_groups repr xs) (entry_author repr y) y = author_groups repr (xs @ [y])"
proof (cases "entry_author repr y \<in> set (map (entry_author repr) xs)")
  case True
  then have "entry_author repr y \<in> set (first_appearance (map (entry_author repr) xs))"
    by (simp add: set_first_appearance)
  from setdefault_append_old [OF distinct_first_appearance this]
  have "setdefault_append (author_groups repr xs) (entry_author repr y) y
        = map (\<lambda>a. (a, if a = entry_author repr y
                         then filter (\<lambda>e. entry_author repr e = a) xs @ [y]
                         else filter (\<lambda>e. entry_author repr e = a) xs))
            (first_appearance (map (entry_author repr) xs))"
    unfolding author_groups_def .
  also have "\<dots> = author_groups repr (xs @ [y])"
    unfolding author_groups_def using True
    by (auto simp: first_appearance_snoc)
  finally show ?thesis .
next
  case False
  then have "entry_author repr y \<notin> set (first_appearance (map (entry_author repr) xs))"
    by (simp add: set_first_appearance)
  from setdefault_append_new [OF this]
  have "setdefault_append (author_groups repr xs) (entry_author repr y) y
        = author_groups repr xs @ [(entry_author repr y, [y])]"
    unfolding author_groups_def .
  also have "\<dots> = author_groups repr (xs @ [y])"
  proof -
    have fresh: "\<forall>e\<in>set xs. entry_author repr e \<noteq> entry_author repr y"
      using False by (metis image_eqI set_map)
    then have "filter (\<lambda>e. entry_author repr e = entry_author repr y) xs = []"
      by (simp add: filter_empty_conv)
    moreover have "map (\<lambda>a. (a, filter (\<lambda>e. entry_author repr e = a) xs)) (first_appearance (map (entry_author repr) xs))
        = map (\<lambda>a. (a, filter (\<lambda>e. entry_author repr e = a) (xs @ [y]))) (first_appearance (map (entry_author repr) xs))"
      using fresh by (intro map_cong) (auto simp: set_first_appearance)
    ultimately show ?thesis
      unfolding author_groups_def using False
      by (simp add: first_appearance_snoc)
  qed
  finally show ?thesis .
qed

lemma by_author_loop_groups:
  "by_author_loop repr (author_groups repr xs) ys = author_groups repr (xs @ ys)"
proof (induction ys arbitrary: xs)
  case Nil
  then show ?case by simp
next
  case (Cons y ys)
  have "by_author_loop repr (author_groups repr xs) (y # ys)
        = by_author_loop repr (author_groups repr (xs @ [y])) ys"
    by (simp add: author_groups_snoc)
  also have "\<dots> = author_groups repr ((xs @ [y]) @ ys)"
    by (rule Cons.IH)
  finally show ?case by simp
qed

lemma by_author_loop_eq: "by_author_loop repr [] entries = author_groups repr entries"
  using by_author_loop_groups [of repr "[]" entries]
  by (simp add: author_groups_def)

lemma map_filter_append: "List.map_filter f (xs @ ys) = List.map_filter f xs @ List.map_filter f ys"
  by (simp add: List.map_filter_def)

lemma changes_loop_eq: "changes_loop repr cs = List.map_filter (change_line repr) (dict_items cs)"
proof (induction cs)
  case Nil
  then show ?case by (simp add: List.map_filter_simps)
next
  case (Cons c cs)
  then show ?case
    by (cases c) (simp_all add: List.map_filter_simps split: option.splits)
qed

lemma author_entries_loop_eq:
  "author_entries_loop repr es = List.map_filter (change_line repr) (change_items es)"
proof (induction es)
  case Nil
  then show ?case by (simp add: List.map_filter_simps)
next
  case (Cons e es)
  then show ?case
    by (cases "dict_get e (ascii ''changes'')") (simp_all add: changes_loop_eq map_filter_append)
qed

lemma authors_loop_later:
  "authors_loop repr False gs
     = concat (map (\<lambda>(a, es). [10] # author_header a # author_entries_loop repr es) gs)"
  by (induction gs) auto

lemma py_join_Cons: "py_join sep (p # ps) = p @ concat (map (\<lambda>q. sep @ q) ps)"
  by (induction ps arbitrary: p) simp_all

lemma authors_loop_first:
  "authors_loop repr True gs
     = py_join [[10]] (map (\<lambda>(a, es). author_header a # author_entries_loop repr es) gs)"
proof (cases gs)
  case Nil
  then show ?thesis by simp
next
  case (Cons g gs')
  obtain a es where g: "g = (a, es)" by (cases g)
  have "concat (map (\<lambda>(a, es). [10] # author_header a # author_entries_loop repr es) gs')
        = concat (map (\<lambda>q. [[10]] @ q) (map (\<lambda>(a, es). author_header a # author_entries_loop repr es) gs'))"
    by (induction gs') auto
  with Cons g show ?thesis
    by (simp add: authors_loop_later py_join_Cons)
qed

lemma py_strip_empty_iff: "py_strip s = [] \<longleftrightarrow> list_all is_space s"
proof -
  have "py_strip s = [] \<longleftrightarrow> (\<forall>x\<in>set (dropWhile is_space s). is_space x)"
    by (simp add: py_strip_def py_rstrip_def py_lstrip_def dropWhile_eq_Nil_conv)
  also have "\<dots> \<longleftrightarrow> dropWhile is_space s = []"
  proof
    assume a: "\<forall>x\<in>set (dropWhile is_space s). is_space x"
    show "dropWhile is_space s = []"
    proof (rule ccontr)
      assume ne: "dropWhile is_space s \<noteq> []"
      then have "\<not> is_space (hd (dropWhile is_space s))"
        by (rule hd_dropWhile)
      moreover from ne have "hd (dropWhile is_space s) \<in> set (dropWhile is_space s)"
        by simp
      ultimately show False using a by blast
    qed
  next
    assume e: "dropWhile is_space s = []"
    show "\<forall>x\<in>set (dropWhile is_space s). is_space x"
      unfolding e by simp
  qed
  also have "\<dots> \<longleftrightarrow> list_all is_space s"
    by (simp add: dropWhile_eq_Nil_conv list_all_iff)
  finally show ?thesis .
qed

lemma change_line_None_iff:
  "change_line repr d = None \<longleftrightarrow> list_all is_space (message_text repr d)"
  by (simp add: change_line_def Let_def py_strip_empty_iff)

lemma entry_author_missing:
  "\<not> py_truthy (dict_get e (ascii ''author'')) \<Longrightarrow> entry_author repr e = UNKNOWN_UA"
  by (simp add: entry_author_def py_or_def)

text \<open>
  Claim C6. The lines are the author groups joined by one blank line between consecutive
  groups; the groups come in the order in which their authors first appear in the entry list;
  a group is the author's header followed by one line per change item of the author's entries
  for which a line is made. An entry whose author is missing or empty belongs to the group of
  the sentinel author, and a change item makes no line exactly when its message is empty or
  consists of whitespace.
\<close>

theorem changelog_entries_to_message_lines_grouped:
  "changelog_entries_to_message_lines repr entries =
     py_join [[10]]
       (map (\<lambda>a. author_header a
                  # List.map_filter (change_line repr)
                      (change_items (filter (\<lambda>e. entry_author repr e = a) entries)))
          (first_appearance (map (entry_author repr) entries)))
   \<and> (\<forall>e. \<not> py_truthy (dict_get e (ascii ''author'')) \<longrightarrow> entry_author repr e = UNKNOWN_UA)
   \<and> (\<forall>d. list_all is_space (message_text repr d) \<longleftrightarrow> change_line repr d = None)"
proof -
  have "changelog_entries_to_message_lines repr entries
        = py_join [[10]] (map (\<lambda>(a, es). author_header a # author_entries_loop repr es)
                            (author_groups repr entries))"
    by (simp add: changelog_entries_to_message_lines_def by_author_loop_eq authors_loop_first)
  also have "\<dots> = py_join [[10]]
       (map (\<lambda>a. author_header a
                  # List.map_filter (change_line repr)
                      (change_items (filter (\<lambda>e. entry_author repr e = a) entries)))
          (first_appearance (map (entry_author repr) entries)))"
    by (simp add: author_groups_def author_entries_loop_eq comp_def)
  finally show ?thesis
    using entry_author_missing change_line_None_iff by blast
qed

theorem changelog_entries_to_message_lines_grouped_witness:
  "\<not> py_truthy (dict_get [(ascii ''id'', PInt 4)] (ascii ''author''))
   \<and> entry_author (\<lambda>v. []) [(ascii ''id'', PInt 4)] = UNKNOWN_UA
   \<and> list_all is_space (message_text (\<lambda>v. []) ex_blank)
   \<and> change_line (\<lambda>v. []) ex_blank = None
   \<and> changelog_entries_to_message_lines (\<lambda>v. []) ex_authors =
       [author_header (ascii ''B''),
        [8226, 32, 128027, 32] @ get_or (map_of TYPES_TO_UA) (ascii ''Fix'') [] @ ascii '': b1'' @ [10],
        [8226, 32, 9874, 65039, 32] @ get_or (map_of TYPES_TO_UA) (ascii ''Tweak'') [] @ ascii '': b2'' @ [10],
        [10],
        author_header (ascii ''A''),
        [8226, 32, 127381, 32] @ get_or (map_of TYPES_TO_UA) (ascii ''Add'') [] @ ascii '': a1'' @ [10],
        [10],
        author_header UNKNOWN_UA,
        [8226, 32, 10060, 32] @ get_or (map_of TYPES_TO_UA) (ascii ''Remove'') [] @ ascii '': gone'' @ [10]]"
proof -
  have a: "\<not> py_truthy (dict_get [(ascii ''id'', PInt 4)] (ascii ''author''))"
    by code_simp
  have b: "list_all is_space (message_text (\<lambda>v. []) ex_blank)"
    by code_simp
  have c: "py_join [[10]]
       (map (\<lambda>a. author_header a
                  # List.map_filter (change_line (\<lambda>v. []))
                      (change_items (filter (\<lambda>e. entry_author (\<lambda>v. []) e = a) ex_authors)))
          (first_appearance (map (entry_author (\<lambda>v. [])) ex_authors)))
     = [author_header (ascii ''B''),
        [8226, 32, 128027, 32] @ get_or (map_of TYPES_TO_UA) (ascii ''Fix'') [] @ ascii '': b1'' @ [10],
        [8226, 32, 9874, 65039, 32] @ get_or (map_of TYPES_TO_UA) (ascii ''Tweak'') [] @ ascii '': b2'' @ [10],
        [10],
        author_header (ascii ''A''),
        [8226, 32, 127381, 32] @ get_or (map_of TYPES_TO_UA) (ascii ''Add'') [] @ ascii '': a1'' @ [10],
        [10],
        author_header UNKNOWN_UA,
        [8226, 32, 10060, 32] @ get_or (map_of TYPES_TO_UA) (ascii ''Remove'') [] @ ascii '': gone'' @ [10]]"
    by code_simp
  from changelog_entries_to_message_lines_grouped [of "\<lambda>v. []" ex_authors] a b c
  show ?thesis by simp
qed

section \<open>Properties of the delivery pipeline\<close>

subsection \<open>Greedy packing uses the fewest chunks\<close>

lemma chunk_count_compare:
  "(\<forall>v w. v \<le> w \<longrightarrow> chunk_count L v ns \<le> chunk_count L w ns)
   \<and> (\<forall>v w. chunk_count L w ns \<le> 1 + chunk_count L v ns)"
proof (induction ns)
  case Nil
  then show ?case by simp
next
  case (Cons n ns)
  then have mono: "\<And>v w. v \<le> w \<Longrightarrow> chunk_count L v ns \<le> chunk_count L w ns"
    and near: "\<And>v w. chunk_count L w ns \<le> 1 + chunk_count L v ns"
    by blast+
  have a: "chunk_count L v (n # ns) \<le> chunk_count L w (n # ns)" if "v \<le> w" for v w
  proof (cases "w + n > L")
    case True
    show ?thesis
    proof (cases "v + n > L")
      case True
      with \<open>w + n > L\<close> show ?thesis by simp
    next
      case False
      with True near [of "v + n" n] show ?thesis by simp
    qed
  next
    case False
    with that have "\<not> v + n > L" by simp
    with False mono [of "v + n" "w + n"] that show ?thesis by simp
  qed
  have b: "chunk_count L w (n # ns) \<le> 1 + chunk_count L v (n # ns)" for v w
  proof (cases "w + n > L")
    case True
    show ?thesis
    proof (cases "v + n > L")
      case True
      with \<open>w + n > L\<close> show ?thesis by simp
    next
      case False
      with True mono [of n "v + n"] show ?thesis by simp
    qed
  next
    case False
    show ?thesis
    proof (cases "v + n > L")
      case True
      with False near [of "w + n" n] show ?thesis by simp
    next
      case False
      with \<open>\<not> w + n > L\<close> near [of "w + n" "v + n"] show ?thesis by simp
    qed
  qed
  from a b show ?case by blast
qed

lemma chunk_count_near: "chunk_count L w ns \<le> 1 + chunk_count L v ns"
  using chunk_count_compare by blast

lemma chunk_count_partition:
  "\<forall>c\<in>set cs. sum_list c \<le> L \<Longrightarrow> w + sum_list c0 \<le> L \<Longrightarrow> v \<le> w \<Longrightarrow>
     chunk_count L v (c0 @ concat cs) \<le> 1 + length cs"
proof (induction cs arbitrary: c0 v w)
  case Nil
  from Nil.prems(2,3) show ?case
  proof (induction c0 arbitrary: v w)
    case Nil
    then show ?case by simp
  next
    case (Cons n c0)
    from Cons.prems have "\<not> v + n > L" by simp
    moreover from Cons.prems have "chunk_count L (v + n) (c0 @ concat []) \<le> 1 + length ([]::nat list list)"
      by (intro Cons.IH [of "w + n" "v + n"]) simp_all
    ultimately show ?case by simp
  qed
next
  case (Cons c1 cs)
  from Cons.prems(2,3) show ?case
  proof (induction c0 arbitrary: v w)
    case Nil
    from Cons.prems(1) have "chunk_count L 0 (c1 @ concat cs) \<le> 1 + length cs"
      by (intro Cons.IH [of 0 c1 0]) simp_all
    with chunk_count_near [of L v "c1 @ concat cs" 0] show ?case by simp
  next
    case (Cons n c0)
    from Cons.prems have "\<not> v + n > L" by simp
    moreover from Cons.prems have "chunk_count L (v + n) (c0 @ concat (c1 # cs)) \<le> 1 + length (c1 # cs)"
      by (intro Cons.IH [of "w + n" "v + n"]) simp_all
    ultimately show ?case by simp
  qed
qed

lemma chunk_count_minimal:
  assumes "concat cs = ns" and "\<forall>c\<in>set cs. sum_list c \<le> L" and "ns \<noteq> []"
  shows "chunk_count L 0 ns \<le> length cs"
proof (cases cs)
  case Nil
  with assms show ?thesis by simp
next
  case (Cons c cs')
  with assms(2) have "\<forall>c\<in>set cs'. sum_list c \<le> L" and "0 + sum_list c \<le> L"
    by simp_all
  from chunk_count_partition [OF this order_refl] assms(1) Cons show ?thesis
    by simp
qed

subsection \<open>Truncation and the webhook call\<close>

lemma length_py_rstrip: "length (py_rstrip s) \<le> length s"
proof -
  have "length (dropWhile is_space (rev s)) \<le> length (rev s)"
    by (rule length_dropWhile_le)
  then show ?thesis by (simp add: py_rstrip_def)
qed

lemma length_ELLIPSIS: "length ELLIPSIS = 6"
  by (simp add: ELLIPSIS_def ascii_def)

lemma length_truncate_line: "length (truncate_line s) \<le> DISCORD_SPLIT_LIMIT"
proof (cases "length s > DISCORD_SPLIT_LIMIT")
  case True
  have "length (py_rstrip (take 1900 s)) \<le> length (take 1900 s)"
    by (rule length_py_rstrip)
  also have "\<dots> \<le> 1900" by simp
  finally show ?thesis
    using True by (simp add: truncate_line_def DISCORD_SPLIT_LIMIT_def length_ELLIPSIS)
next
  case False
  then show ?thesis by (simp add: truncate_line_def)
qed

lemma truncate_line_short: "length s \<le> DISCORD_SPLIT_LIMIT \<Longrightarrow> truncate_line s = s"
  by (simp add: truncate_line_def)

lemma webhook_loop_posts:
  "Post b' \<in> set (fst (snd (webhook_loop sleep_max attempt b script))) \<Longrightarrow> b' = b"
proof (induction sleep_max attempt b script rule: webhook_loop.induct)
  case (1 sleep_max attempt b)
  then show ?case by simp
next
  case (2 sleep_max attempt b e rs)
  then show ?case by simp
next
  case (3 sleep_max attempt b resp rs)
  then show ?case
    by (auto simp: then_continue_def split: if_splits sum.splits option.splits prod.splits)
qed

lemma webhook_loop_posts_first:
  "\<exists>evs. fst (snd (webhook_loop sleep_max attempt b script)) = Post b # evs"
proof (cases script)
  case Nil
  then show ?thesis by simp
next
  case (Cons r rs)
  show ?thesis
  proof (cases r)
    case (Reply resp)
    with Cons show ?thesis
      by (auto simp: then_continue_def split: sum.splits option.splits prod.splits)
  next
    case (PostRaises e)
    with Cons show ?thesis by simp
  qed
qed

lemma send_discord_webhook_posts:
  "send_discord_webhook sleep_max script chunk = (out, evs, rest) \<Longrightarrow> Post b \<in> set evs \<Longrightarrow>
     b = get_discord_body (concat chunk)"
  using webhook_loop_posts [of b sleep_max 0 "get_discord_body (concat chunk)" script]
  by (simp add: send_discord_webhook_def)

lemma send_discord_webhook_posts_first:
  "send_discord_webhook sleep_max script chunk = (out, evs, rest) \<Longrightarrow>
     \<exists>evs'. evs = Post (get_discord_body (concat chunk)) # evs'"
  using webhook_loop_posts_first [of sleep_max 0 "get_discord_body (concat chunk)" script]
  by (simp add: send_discord_webhook_def)

lemma send_discord_webhook_success:
  "is_success r \<Longrightarrow>
     send_discord_webhook sleep_max (r # rs) chunk
       = (Returned, [Post (get_discord_body (concat chunk))], rs)"
  by (cases r) (simp_all add: send_discord_webhook_def)

subsection \<open>The chunking of the specification\<close>

lemma pack_from_nonempty: "cur \<noteq> [] \<Longrightarrow> pack_from cur ls \<noteq> []"
  by (induction ls arbitrary: cur) simp_all

lemma pack_from_chunks_nonempty: "c \<in> set (pack_from cur ls) \<Longrightarrow> c \<noteq> []"
  by (induction ls arbitrary: cur) (auto split: if_splits)

lemma pack_from_concat: "concat (pack_from cur ls) = cur @ ls"
  by (induction ls arbitrary: cur) simp_all

lemma pack_from_bounded:
  "c \<in> set (pack_from cur ls) \<Longrightarrow> \<forall>l\<in>set ls. length l \<le> DISCORD_SPLIT_LIMIT \<Longrightarrow>
     length (concat cur) \<le> DISCORD_SPLIT_LIMIT \<Longrightarrow> length (concat c) \<le> DISCORD_SPLIT_LIMIT"
proof (induction ls arbitrary: cur)
  case Nil
  then show ?case by (simp split: if_splits)
next
  case (Cons l ls)
  show ?case
  proof (cases "length (concat cur) + length l > DISCORD_SPLIT_LIMIT")
    case True
    with Cons.prems(1) have "c = cur \<or> c \<in> set (pack_from [l] ls)"
      by (auto split: if_splits)
    then show ?thesis
    proof
      assume "c = cur"
      with Cons.prems(3) show ?thesis by simp
    next
      assume "c \<in> set (pack_from [l] ls)"
      then show ?thesis
        using Cons.prems(2) by (intro Cons.IH [of "[l]"]) simp_all
    qed
  next
    case False
    with Cons.prems(1) have "c \<in> set (pack_from (cur @ [l]) ls)"
      by simp
    then show ?thesis
      using Cons.prems(2) False by (intro Cons.IH [of "cur @ [l]"]) simp_all
  qed
qed

lemma pack_from_count:
  "cur \<noteq> [] \<Longrightarrow>
     length (pack_from cur ls) = chunk_count DISCORD_SPLIT_LIMIT (length (concat cur)) (map length ls)"
proof (induction ls arbitrary: cur)
  case Nil
  then show ?case by simp
next
  case (Cons l ls)
  show ?case
  proof (cases "length (concat cur) + length l > DISCORD_SPLIT_LIMIT")
    case True
    have "length (pack_from [l] ls) = chunk_count DISCORD_SPLIT_LIMIT (length (concat [l])) (map length ls)"
      by (rule Cons.IH) simp
    with True Cons.prems show ?thesis by simp
  next
    case False
    have "length (pack_from (cur @ [l]) ls)
        = chunk_count DISCORD_SPLIT_LIMIT (length (concat (cur @ [l]))) (map length ls)"
      by (rule Cons.IH) simp
    with False show ?thesis by simp
  qed
qed

lemma sum_list_lengths: "sum_list (map length c) = length (concat c)"
  by (simp add: length_concat)

lemma greedy_chunks_minimal:
  assumes fit_lines: "\<forall>l\<in>set ls. length l \<le> DISCORD_SPLIT_LIMIT"
    and part: "concat cs = ls"
    and fit: "\<forall>c\<in>set cs. length (concat c) \<le> DISCORD_SPLIT_LIMIT"
  shows "length (greedy_chunks ls) \<le> length cs"
proof (cases ls)
  case Nil
  then show ?thesis by (simp add: greedy_chunks_def)
next
  case (Cons l ls')
  with fit_lines have "\<not> length (concat ([]::pystr list)) + length l > DISCORD_SPLIT_LIMIT"
    by simp
  then have "greedy_chunks ls = pack_from [l] ls'"
    by (simp add: greedy_chunks_def Cons)
  then have "length (greedy_chunks ls) = chunk_count DISCORD_SPLIT_LIMIT (length l) (map length ls')"
    by (simp add: pack_from_count)
  also from fit_lines Cons have "\<dots> = chunk_count DISCORD_SPLIT_LIMIT 0 (map length ls)"
    by simp
  finally have count: "length (greedy_chunks ls) = chunk_count DISCORD_SPLIT_LIMIT 0 (map length ls)" .
  have "concat (map (map length) cs) = map length ls"
    using part by (simp add: map_concat [symmetric])
  moreover have "\<forall>c\<in>set (map (map length) cs). sum_list c \<le> DISCORD_SPLIT_LIMIT"
    using fit by (simp add: sum_list_lengths)
  moreover have "map length ls \<noteq> []"
    by (simp add: Cons)
  ultimately have "chunk_count DISCORD_SPLIT_LIMIT 0 (map length ls) \<le> length (map (map length) cs)"
    by (rule chunk_count_minimal)
  with count show ?thesis by simp
qed

subsection \<open>The loop of \<^verbatim>\<open>send_message_lines\<close> packs greedily and delivers in order\<close>

lemma deliver_chunks_Cons:
  assumes "cs \<noteq> []"
  shows "deliver_chunks sleep_max script delay (c # cs) =
     (case send_discord_webhook sleep_max script c of
        (out, evs, rest) \<Rightarrow>
          if out = Returned then
            (case sleep_max0 sleep_max delay of
               Inl e \<Rightarrow> \<lparr>result = Raised e, calls = [c], trace = evs, unread = rest\<rparr>
             | Inr secs \<Rightarrow>
                 after_call c (evs @ [Sleep secs]) (deliver_chunks sleep_max rest delay cs))
          else \<lparr>result = out, calls = [c], trace = evs, unread = rest\<rparr>)"
proof (cases cs)
  case Nil
  with assms show ?thesis by simp
next
  case (Cons c' cs')
  show ?thesis unfolding Cons by simp
qed

lemma send_loop_refines:
  "len = length (concat cur) \<Longrightarrow>
   send_loop sleep_max delay script cur len lines
     = deliver_chunks sleep_max script delay (pack_from cur (map truncate_line lines))"
proof (induction lines arbitrary: script cur len)
  case Nil
  then show ?case by simp
next
  case (Cons l ls)
  let ?t = "truncate_line l"
  show ?case
  proof (cases "len + length ?t > DISCORD_SPLIT_LIMIT")
    case True
    have next_chunk: "send_loop sleep_max delay s [?t] (length ?t) ls
        = deliver_chunks sleep_max s delay (pack_from [?t] (map truncate_line ls))" for s
      by (rule Cons.IH) simp
    show ?thesis
    proof (cases "cur = []")
      case True
      with \<open>len + length ?t > DISCORD_SPLIT_LIMIT\<close> Cons.prems next_chunk show ?thesis
        by (simp add: Let_def)
    next
      case False
      have ne: "pack_from [?t] (map truncate_line ls) \<noteq> []"
        by (rule pack_from_nonempty) simp
      from True False Cons.prems
      have "pack_from cur (map truncate_line (l # ls)) = cur # pack_from [?t] (map truncate_line ls)"
        by simp
      then have "deliver_chunks sleep_max script delay (pack_from cur (map truncate_line (l # ls)))
          = (case send_discord_webhook sleep_max script cur of
               (out, evs, rest) \<Rightarrow>
                 if out = Returned then
                   (case sleep_max0 sleep_max delay of
                      Inl e \<Rightarrow> \<lparr>result = Raised e, calls = [cur], trace = evs, unread = rest\<rparr>
                    | Inr secs \<Rightarrow>
                        after_call cur (evs @ [Sleep secs])
                          (deliver_chunks sleep_max rest delay (pack_from [?t] (map truncate_line ls))))
                 else \<lparr>result = out, calls = [cur], trace = evs, unread = rest\<rparr>)"
        by (simp only: deliver_chunks_Cons [OF ne])
      moreover from True False
      have "send_loop sleep_max delay script cur len (l # ls)
          = (case send_discord_webhook sleep_max script cur of
               (out, evs, rest) \<Rightarrow>
                 if out = Returned then
                   (case sleep_max0 sleep_max delay of
                      Inl e \<Rightarrow> \<lparr>result = Raised e, calls = [cur], trace = evs, unread = rest\<rparr>
                    | Inr secs \<Rightarrow>
                        after_call cur (evs @ [Sleep secs])
                          (send_loop sleep_max delay rest [?t] (length ?t) ls))
                 else \<lparr>result = out, calls = [cur], trace = evs, unread = rest\<rparr>)"
        by (simp add: Let_def)
      ultimately show ?thesis
        by (simp only: next_chunk)
    qed
  next
    case False
    have "send_loop sleep_max delay script (cur @ [?t]) (len + length ?t) ls
        = deliver_chunks sleep_max script delay (pack_from (cur @ [?t]) (map truncate_line ls))"
      using Cons.prems by (intro Cons.IH) simp
    with False Cons.prems show ?thesis
      by (simp add: Let_def)
  qed
qed

lemma send_message_lines_refines:
  "send_message_lines sleep_max script lines delay
     = deliver_chunks sleep_max script delay (greedy_chunks (map truncate_line lines))"
  by (simp add: send_message_lines_def greedy_chunks_def send_loop_refines)

subsection \<open>Delivery in order\<close>

lemma deliver_chunks_calls_prefix:
  "prefix (calls (deliver_chunks sleep_max script delay cs)) cs"
proof (induction sleep_max script delay cs rule: deliver_chunks.induct)
  case (1 sleep_max script delay)
  then show ?case by simp
next
  case (2 sleep_max script delay c)
  then show ?case by (simp split: prod.splits)
next
  case (3 sleep_max script delay c c' cs)
  then show ?case
    by (auto simp: after_call_def split: prod.splits sum.splits)
qed

lemma deliver_chunks_returned:
  "result (deliver_chunks sleep_max script delay cs) = Returned \<Longrightarrow>
     calls (deliver_chunks sleep_max script delay cs) = cs"
proof (induction sleep_max script delay cs rule: deliver_chunks.induct)
  case (1 sleep_max script delay)
  then show ?case by simp
next
  case (2 sleep_max script delay c)
  then show ?case by (simp split: prod.splits)
next
  case (3 sleep_max script delay c c' cs)
  then show ?case
    by (auto simp: after_call_def split: prod.splits sum.splits if_splits)
qed

lemma deliver_chunks_posts:
  "Post b \<in> set (trace (deliver_chunks sleep_max script delay cs)) \<Longrightarrow>
     \<exists>c\<in>set (calls (deliver_chunks sleep_max script delay cs)). b = get_discord_body (concat c)"
proof (induction cs arbitrary: script)
  case Nil
  then show ?case by simp
next
  case (Cons c cs0)
  obtain out evs rest where w: "send_discord_webhook sleep_max script c = (out, evs, rest)"
    by (cases "send_discord_webhook sleep_max script c") auto
  show ?case
  proof (cases "cs0 = []")
    case True
    with Cons.prems w show ?thesis
      by (auto dest: send_discord_webhook_posts)
  next
    case ne: False
    note unfold = deliver_chunks_Cons [OF ne, of sleep_max script delay c]
    note prems = Cons.prems [unfolded unfold]
    show ?thesis
    proof (cases "out = Returned")
      case True
      show ?thesis
      proof (cases "sleep_max0 sleep_max delay")
        case (Inl e)
        with w True prems have "Post b \<in> set evs" by simp
        from send_discord_webhook_posts [OF w this] w True Inl show ?thesis
          by (simp add: unfold)
      next
        case (Inr secs)
        with w True prems
        have "Post b \<in> set evs
            \<or> Post b \<in> set (trace (deliver_chunks sleep_max rest delay cs0))"
          by (auto simp: after_call_def)
        then show ?thesis
        proof
          assume "Post b \<in> set evs"
          from send_discord_webhook_posts [OF w this] w True Inr show ?thesis
            by (simp add: unfold after_call_def)
        next
          assume "Post b \<in> set (trace (deliver_chunks sleep_max rest delay cs0))"
          from Cons.IH [OF this] w True Inr show ?thesis
            by (auto simp: unfold after_call_def)
        qed
      qed
    next
      case False
      with w prems have "Post b \<in> set evs" by simp
      from send_discord_webhook_posts [OF w this] w False show ?thesis
        by (simp add: unfold)
    qed
  qed
qed

lemma deliver_chunks_calls_posted:
  "c \<in> set (calls (deliver_chunks sleep_max script delay cs)) \<Longrightarrow>
     Post (get_discord_body (concat c)) \<in> set (trace (deliver_chunks sleep_max script delay cs))"
proof (induction cs arbitrary: script)
  case Nil
  then show ?case by simp
next
  case (Cons c0 cs0)
  obtain out evs rest where w: "send_discord_webhook sleep_max script c0 = (out, evs, rest)"
    by (cases "send_discord_webhook sleep_max script c0") auto
  from send_discord_webhook_posts_first [OF w]
  have first: "Post (get_discord_body (concat c0)) \<in> set evs" by auto
  show ?case
  proof (cases "cs0 = []")
    case True
    with Cons.prems w first show ?thesis by simp
  next
    case ne: False
    note unfold = deliver_chunks_Cons [OF ne, of sleep_max script delay c0]
    note prems = Cons.prems [unfolded unfold]
    show ?thesis
    proof (cases "out = Returned")
      case True
      show ?thesis
      proof (cases "sleep_max0 sleep_max delay")
        case (Inl e)
        with w True prems first show ?thesis by (simp add: unfold)
      next
        case (Inr secs)
        with w True prems
        have "c = c0 \<or> c \<in> set (calls (deliver_chunks sleep_max rest delay cs0))"
          by (auto simp: after_call_def)
        then show ?thesis
        proof
          assume "c = c0"
          with w True Inr first show ?thesis by (simp add: unfold after_call_def)
        next
          assume "c \<in> set (calls (deliver_chunks sleep_max rest delay cs0))"
          from Cons.IH [OF this] w True Inr show ?thesis
            by (simp add: unfold after_call_def)
        qed
      qed
    next
      case False
      with w prems first show ?thesis by (simp add: unfold)
    qed
  qed
qed

lemma deliver_chunks_success:
  "list_all is_success script \<Longrightarrow> length cs \<le> length script \<Longrightarrow>
   sleep_max0 sleep_max delay = Inr secs \<Longrightarrow>
   deliver_chunks sleep_max script delay cs
     = \<lparr>result = Returned, calls = cs,
        trace = py_join [Sleep secs] (map (\<lambda>c. [Post (get_discord_body (concat c))]) cs),
        unread = drop (length cs) script\<rparr>"
proof (induction cs arbitrary: script)
  case Nil
  then show ?case by simp
next
  case (Cons c cs0)
  then obtain r rs where s: "script = r # rs"
    by (cases script) auto
  with Cons.prems have ok: "is_success r" and rest: "list_all is_success rs"
    and len: "length cs0 \<le> length rs"
    by simp_all
  have w: "send_discord_webhook sleep_max script c = (Returned, [Post (get_discord_body (concat c))], rs)"
    unfolding s by (rule send_discord_webhook_success [OF ok])
  show ?case
  proof (cases cs0)
    case Nil
    with w s show ?thesis by simp
  next
    case (Cons c' cs')
    then have ne: "cs0 \<noteq> []" by simp
    have "deliver_chunks sleep_max rs delay cs0
        = \<lparr>result = Returned, calls = cs0,
           trace = py_join [Sleep secs] (map (\<lambda>c. [Post (get_discord_body (concat c))]) cs0),
           unread = drop (length cs0) rs\<rparr>"
      using rest len Cons.prems(3) by (rule Cons.IH)
    with w Cons.prems(3) s show ?thesis
      unfolding deliver_chunks_Cons [OF ne] by (simp add: after_call_def Cons)
  qed
qed

lemma deliver_chunks_sleep_raises:
  "is_success r \<Longrightarrow> sleep_max0 sleep_max delay = Inl e \<Longrightarrow>
   deliver_chunks sleep_max (r # rs) delay (c # c' # cs)
     = \<lparr>result = Raised e, calls = [c], trace = [Post (get_discord_body (concat c))], unread = rs\<rparr>"
  by (simp add: send_discord_webhook_success)

subsection \<open>The claims about delivery\<close>

lemma py_rstrip_replicate: "\<not> is_space c \<Longrightarrow> py_rstrip (replicate n c) = replicate n c"
  by (simp add: py_rstrip_def dropWhile_replicate)

lemma truncated_lines_fit: "\<forall>l\<in>set (map truncate_line lines). length l \<le> DISCORD_SPLIT_LIMIT"
  by (simp add: length_truncate_line)

text \<open>
  Claim C7. For every line sequence, every sequence of replies and every delay, the run of
  \<^verbatim>\<open>send_message_lines\<close> is the in-order delivery of the greedy chunking of the truncated
  lines: a line is appended to the current chunk unless that would exceed 2000 characters, and
  then the current chunk, when not empty, is sent and a new chunk starts with exactly that
  line. Every chunk is non-empty and at most 2000 characters long; the chunks concatenate to
  the truncated line sequence (the line sequence itself when no line exceeds 2000 characters);
  no partition of that sequence into consecutive chunks of at most 2000 characters has fewer
  chunks. The chunks passed to the webhook are a prefix of the chunking, all of it when the run
  returns, and the bodies posted are exactly the contents of the chunks passed. When every
  reply is a success, there is a reply for each chunk and the delay can be slept, the run
  returns and has posted every chunk once, in order, with one sleep between consecutive posts.
\<close>

theorem send_message_lines_chunks:
  "send_message_lines sleep_max script lines delay
     = deliver_chunks sleep_max script delay (greedy_chunks (map truncate_line lines))
   \<and> (\<forall>c\<in>set (greedy_chunks (map truncate_line lines)).
          c \<noteq> [] \<and> length (concat c) \<le> DISCORD_SPLIT_LIMIT)
   \<and> concat (greedy_chunks (map truncate_line lines)) = map truncate_line lines
   \<and> (\<forall>cs. concat cs = map truncate_line lines
             \<and> (\<forall>c\<in>set cs. length (concat c) \<le> DISCORD_SPLIT_LIMIT)
          \<longrightarrow> length (greedy_chunks (map truncate_line lines)) \<le> length cs)
   \<and> ((\<forall>l\<in>set lines. length l \<le> DISCORD_SPLIT_LIMIT) \<longrightarrow> map truncate_line lines = lines)
   \<and> prefix (calls (send_message_lines sleep_max script lines delay))
        (greedy_chunks (map truncate_line lines))
   \<and> (result (send_message_lines sleep_max script lines delay) = Returned
        \<longrightarrow> calls (send_message_lines sleep_max script lines delay)
              = greedy_chunks (map truncate_line lines))
   \<and> (\<forall>b. Post b \<in> set (trace (send_message_lines sleep_max script lines delay))
          \<longleftrightarrow> (\<exists>c\<in>set (calls (send_message_lines sleep_max script lines delay)).
                  b = get_discord_body (concat c)))
   \<and> (list_all is_success script
        \<and> length (greedy_chunks (map truncate_line lines)) \<le> length script
        \<and> sleep_max0 sleep_max delay = Inr secs
        \<longrightarrow> send_message_lines sleep_max script lines delay
              = \<lparr>result = Returned,
                 calls = greedy_chunks (map truncate_line lines),
                 trace = py_join [Sleep secs]
                           (map (\<lambda>c. [Post (get_discord_body (concat c))])
                              (greedy_chunks (map truncate_line lines))),
                 unread = drop (length (greedy_chunks (map truncate_line lines))) script\<rparr>)"
proof -
  let ?ls = "map truncate_line lines"
  let ?ch = "greedy_chunks ?ls"
  let ?d = "send_message_lines sleep_max script lines delay"
  have refine: "?d = deliver_chunks sleep_max script delay ?ch"
    by (rule send_message_lines_refines)
  have chunks: "\<forall>c\<in>set ?ch. c \<noteq> [] \<and> length (concat c) \<le> DISCORD_SPLIT_LIMIT"
  proof
    fix c
    assume c: "c \<in> set ?ch"
    then have "c \<noteq> []"
      unfolding greedy_chunks_def by (rule pack_from_chunks_nonempty)
    moreover from c have "length (concat c) \<le> DISCORD_SPLIT_LIMIT"
      unfolding greedy_chunks_def
      by (rule pack_from_bounded) (simp_all add: length_truncate_line)
    ultimately show "c \<noteq> [] \<and> length (concat c) \<le> DISCORD_SPLIT_LIMIT" ..
  qed
  have whole: "concat ?ch = ?ls"
    by (simp add: greedy_chunks_def pack_from_concat)
  have least: "\<forall>cs. concat cs = ?ls \<and> (\<forall>c\<in>set cs. length (concat c) \<le> DISCORD_SPLIT_LIMIT)
      \<longrightarrow> length ?ch \<le> length cs"
    using greedy_chunks_minimal [OF truncated_lines_fit] by blast
  have short: "(\<forall>l\<in>set lines. length l \<le> DISCORD_SPLIT_LIMIT) \<longrightarrow> ?ls = lines"
    by (simp add: truncate_line_short map_idI)
  have pre: "prefix (calls ?d) ?ch"
    unfolding refine by (rule deliver_chunks_calls_prefix)
  have ret: "result ?d = Returned \<longrightarrow> calls ?d = ?ch"
    unfolding refine using deliver_chunks_returned by blast
  have posts: "\<forall>b. Post b \<in> set (trace ?d)
      \<longleftrightarrow> (\<exists>c\<in>set (calls ?d). b = get_discord_body (concat c))"
    unfolding refine using deliver_chunks_posts deliver_chunks_calls_posted by blast
  have good: "list_all is_success script \<and> length ?ch \<le> length script
      \<and> sleep_max0 sleep_max delay = Inr secs
      \<longrightarrow> ?d = \<lparr>result = Returned, calls = ?ch,
                 trace = py_join [Sleep secs] (map (\<lambda>c. [Post (get_discord_body (concat c))]) ?ch),
                 unread = drop (length ?ch) script\<rparr>"
    unfolding refine using deliver_chunks_success by blast
  from refine chunks whole least short pre ret posts good show ?thesis
    by (intro conjI)
qed

theorem send_message_lines_chunks_witness:
  "list_all is_success ex_script
   \<and> greedy_chunks (map truncate_line ex_lines) = [[replicate 1500 120], [replicate 600 121, []]]
   \<and> sleep_max0 1000 (Finite 2) = Inr 2
   \<and> send_message_lines 1000 ex_script ex_lines (Finite 2)
       = \<lparr>result = Returned,
          calls = [[replicate 1500 120], [replicate 600 121, []]],
          trace = [Post (get_discord_body (replicate 1500 120)), Sleep 2,
                   Post (get_discord_body (replicate 600 121))],
          unread = [plain_response 204]\<rparr>
   \<and> concat [[replicate 1500 120], [replicate 600 121], [[]]] = map truncate_line ex_lines
   \<and> length (greedy_chunks (map truncate_line ex_lines)) \<le> 3
   \<and> map truncate_line ex_lines = ex_lines"
proof -
  note T = send_message_lines_chunks [of 1000 ex_script ex_lines "Finite 2" 2]
  have h1: "list_all is_success ex_script"
    by (simp add: ex_script_def plain_response_def)
  have g: "greedy_chunks (map truncate_line ex_lines) = [[replicate 1500 120], [replicate 600 121, []]]"
    by (simp add: greedy_chunks_def ex_lines_def truncate_line_def DISCORD_SPLIT_LIMIT_def)
  then have h2: "length (greedy_chunks (map truncate_line ex_lines)) \<le> length ex_script"
    by (simp add: ex_script_def)
  have h3: "sleep_max0 1000 (Finite 2) = Inr 2"
    by (simp add: time_sleep_def)
  from T h1 h2 h3
  have "send_message_lines 1000 ex_script ex_lines (Finite 2)
      = \<lparr>result = Returned,
         calls = greedy_chunks (map truncate_line ex_lines),
         trace = py_join [Sleep 2]
                   (map (\<lambda>c. [Post (get_discord_body (concat c))])
                      (greedy_chunks (map truncate_line ex_lines))),
         unread = drop (length (greedy_chunks (map truncate_line ex_lines))) ex_script\<rparr>"
    by blast
  then have run: "send_message_lines 1000 ex_script ex_lines (Finite 2)
       = \<lparr>result = Returned,
          calls = [[replicate 1500 120], [replicate 600 121, []]],
          trace = [Post (get_discord_body (replicate 1500 120)), Sleep 2,
                   Post (get_discord_body (replicate 600 121))],
          unread = [plain_response 204]\<rparr>"
    unfolding g by (simp add: ex_script_def)
  have p: "concat [[replicate 1500 120], [replicate 600 121], [[]]] = map truncate_line ex_lines"
    by (simp add: ex_lines_def truncate_line_def DISCORD_SPLIT_LIMIT_def)
  have f: "\<forall>c\<in>set [[replicate 1500 120], [replicate 600 121], [[]::pystr]].
             length (concat c) \<le> DISCORD_SPLIT_LIMIT"
    by (simp add: DISCORD_SPLIT_LIMIT_def)
  from T p f
  have m: "length (greedy_chunks (map truncate_line ex_lines))
             \<le> length [[replicate 1500 120], [replicate 600 121], [[]::pystr]]"
    by blast
  have s: "\<forall>l\<in>set ex_lines. length l \<le> DISCORD_SPLIT_LIMIT"
    by (simp add: ex_lines_def DISCORD_SPLIT_LIMIT_def)
  with T have i: "map truncate_line ex_lines = ex_lines"
    by blast
  from h1 g h3 run p m i show ?thesis by simp
qed

text \<open>
  A delay that \<^verbatim>\<open>time.sleep\<close> refuses ends the run after the first chunk when there are more.
\<close>

lemma sleep_raises_ends_run:
  assumes "is_success r" and "sleep_max0 sleep_max delay = Inl e"
    and "greedy_chunks (map truncate_line lines) = c # c' # cs"
  shows "send_message_lines sleep_max (r # rs) lines delay
       = \<lparr>result = Raised e, calls = [c], trace = [Post (get_discord_body (concat c))], unread = rs\<rparr>"
  unfolding send_message_lines_refines assms(3)
  using assms(1,2) by (rule deliver_chunks_sleep_raises)

text \<open>
  Claim C8. A line longer than 2000 characters is replaced by its first 1900 characters,
  stripped of trailing whitespace, followed by the ellipsis marker; the result is at most 2000
  characters long and ends in the marker, and sent alone it makes one chunk with that content.
\<close>

theorem long_line_truncated:
  assumes "length line > DISCORD_SPLIT_LIMIT"
  shows "truncate_line line = py_rstrip (take 1900 line) @ ascii '' [...]''
       \<and> length (truncate_line line) \<le> 2000
       \<and> suffix (ascii '' [...]'') (truncate_line line)
       \<and> calls (send_message_lines sleep_max script [line] delay) = [[truncate_line line]]
       \<and> (\<forall>b. Post b \<in> set (trace (send_message_lines sleep_max script [line] delay))
              \<longrightarrow> content b = truncate_line line)"
proof -
  let ?t = "truncate_line line"
  have t: "?t = py_rstrip (take 1900 line) @ ascii '' [...]''"
    using assms by (simp add: truncate_line_def DISCORD_SPLIT_LIMIT_def ELLIPSIS_def)
  have len: "length ?t \<le> 2000"
    using length_truncate_line [of line] by (simp add: DISCORD_SPLIT_LIMIT_def)
  have suf: "suffix (ascii '' [...]'') ?t"
    unfolding t by (rule suffix_appendI) simp
  obtain out evs rest where w: "send_discord_webhook sleep_max script [?t] = (out, evs, rest)"
    by (cases "send_discord_webhook sleep_max script [?t]") auto
  from len have d: "send_message_lines sleep_max script [line] delay
      = \<lparr>result = out, calls = [[?t]], trace = evs, unread = rest\<rparr>"
    by (simp add: send_message_lines_def Let_def DISCORD_SPLIT_LIMIT_def w)
  have "content b = ?t" if "Post b \<in> set (trace (send_message_lines sleep_max script [line] delay))" for b
  proof -
    from that d have "Post b \<in> set evs" by simp
    from send_discord_webhook_posts [OF w this] show ?thesis
      by (simp add: get_discord_body_def)
  qed
  with t len suf d show ?thesis by simp
qed

theorem long_line_truncated_witness:
  "length (replicate 2500 (120::int)) > DISCORD_SPLIT_LIMIT
   \<and> truncate_line (replicate 2500 120) = replicate 1900 120 @ ascii '' [...]''
   \<and> length (truncate_line (replicate 2500 120)) \<le> 2000
   \<and> calls (send_message_lines 1000 [plain_response 204] [replicate 2500 120] (Finite 0))
       = [[replicate 1900 120 @ ascii '' [...]'']]"
proof -
  have h: "length (replicate 2500 (120::int)) > DISCORD_SPLIT_LIMIT"
    by (simp add: DISCORD_SPLIT_LIMIT_def)
  have s: "py_rstrip (take 1900 (replicate 2500 (120::int))) = replicate 1900 120"
    by (simp add: py_rstrip_replicate is_space_def)
  from long_line_truncated [OF h, of 1000 "[plain_response 204]" "Finite 0"] h s show ?thesis
    by (simp add: ascii_def)
qed

text \<open>
  Claim C10. No chunk passed to \<^verbatim>\<open>send_discord_webhook\<close> is empty, and an empty line list ends
  the run with no call, no post and no sleep.
\<close>

theorem send_message_lines_no_empty_chunk:
  "(\<forall>c\<in>set (calls (send_message_lines sleep_max script lines delay)). c \<noteq> [])
   \<and> send_message_lines sleep_max script [] delay
       = \<lparr>result = Returned, calls = [], trace = [], unread = script\<rparr>"
proof
  show "\<forall>c\<in>set (calls (send_message_lines sleep_max script lines delay)). c \<noteq> []"
  proof
    fix c
    assume "c \<in> set (calls (send_message_lines sleep_max script lines delay))"
    moreover have "prefix (calls (send_message_lines sleep_max script lines delay))
        (pack_from [] (map truncate_line lines))"
      unfolding send_message_lines_refines greedy_chunks_def
      by (rule deliver_chunks_calls_prefix)
    ultimately have "c \<in> set (pack_from [] (map truncate_line lines))"
      using set_mono_prefix by blast
    then show "c \<noteq> []"
      by (rule pack_from_chunks_nonempty)
  qed
  show "send_message_lines sleep_max script [] delay
      = \<lparr>result = Returned, calls = [], trace = [], unread = script\<rparr>"
    by (simp add: send_message_lines_def)
qed

theorem send_message_lines_no_empty_chunk_witness:
  "calls (send_message_lines 1000 [plain_response 204] [[], []] (Finite 0)) = [[[], []]]
   \<and> hd (calls (send_message_lines 1000 [plain_response 204] [[], []] (Finite 0))) \<noteq> []"
proof -
  have e: "calls (send_message_lines 1000 [plain_response 204] [[], []] (Finite 0)) = [[[], []]]"
    by (simp add: send_message_lines_def Let_def truncate_line_def DISCORD_SPLIT_LIMIT_def
          send_discord_webhook_def plain_response_def)
  then have "hd (calls (send_message_lines 1000 [plain_response 204] [[], []] (Finite 0)))
      \<in> set (calls (send_message_lines 1000 [plain_response 204] [[], []] (Finite 0)))"
    by simp
  with send_message_lines_no_empty_chunk [of 1000 "[plain_response 204]" "[[], []]" "Finite 0"] e
  show ?thesis by blast
qed

subsection \<open>The retry loop of \<^verbatim>\<open>send_discord_webhook\<close>\<close>

text \<open>
  A 429 is retried however often it comes, after the sleep its retry-after information gives
  (one second when there is none).
\<close>

lemma then_continue_append:
  "then_continue xs (then_continue ys r) = then_continue (xs @ ys) r"
  by (cases r) (simp add: then_continue_def)

lemma rate_limited_retried_without_cap:
  assumes "status_code resp = 429" and "retry_after_of resp = Inr x"
    and "sleep_max0 sleep_max x = Inr secs"
  shows "webhook_loop sleep_max attempt b (replicate n (Reply resp) @ rs)
       = then_continue (concat (replicate n [Post b, Sleep secs]))
           (webhook_loop sleep_max (attempt + n) b rs)"
proof (induction n arbitrary: attempt)
  case 0
  show ?case by (cases "webhook_loop sleep_max attempt b rs") (simp add: then_continue_def)
next
  case (Suc n)
  from assms Suc [of "attempt + 1"] show ?case
    by (simp add: then_continue_append)
qed

lemma plain_429_sleeps_one_second:
  assumes "1 \<le> sleep_max"
  shows "retry_after_of \<lparr>status_code = 429, body_retry_after = None, header_retry_after = None\<rparr>
           = Inr (Finite 1)"
    and "sleep_max0 sleep_max (Finite 1) = Inr 1"
  using assms by (simp_all add: retry_after_of_def time_sleep_def)

lemma rate_limited_then_delivered:
  assumes "1 \<le> sleep_max"
  shows "send_discord_webhook sleep_max (replicate n (plain_response 429) @ plain_response 204 # rs) lines
     = (Returned,
        concat (replicate n [Post (get_discord_body (concat lines)), Sleep 1])
          @ [Post (get_discord_body (concat lines))], rs)"
  using rate_limited_retried_without_cap
          [OF _ plain_429_sleeps_one_second [OF assms], of 0 "get_discord_body (concat lines)" n
             "plain_response 204 # rs"]
  by (simp add: send_discord_webhook_def plain_response_def then_continue_def)

text \<open>
  A 429 is not retried when its retry-after value is no number (\<^verbatim>\<open>float\<close> raises) or is one
  that \<^verbatim>\<open>time.sleep\<close> refuses.
\<close>

lemma rate_limited_without_number_raises:
  assumes "status_code resp = 429" and "retry_after_of resp = Inl e"
  shows "webhook_loop sleep_max attempt b (Reply resp # rs) = (Raised e, [Post b], rs)"
  using assms by simp

lemma rate_limited_sleep_raises:
  assumes "status_code resp = 429" and "retry_after_of resp = Inr x"
    and "sleep_max0 sleep_max x = Inl e"
  shows "webhook_loop sleep_max attempt b (Reply resp # rs) = (Raised e, [Post b], rs)"
  using assms by simp

text \<open>
  Five 503 responses are retried after 2, 4, 8, 16 and 30 seconds; the sixth raises. The
  counter counts every round of the loop, so a 503 that follows five 429 responses raises at
  once. A client or server error code outside the retried ones raises at once.
\<close>

lemma transient_errors_capped:
  assumes "30 \<le> sleep_max"
  shows "send_discord_webhook sleep_max
     (plain_response 503 # plain_response 503 # plain_response 503 # plain_response 503
        # plain_response 503 # plain_response 503 # rs) lines
     = (Raised (HTTPError 503),
        [Post (get_discord_body (concat lines)), Sleep 2,
         Post (get_discord_body (concat lines)), Sleep 4,
         Post (get_discord_body (concat lines)), Sleep 8,
         Post (get_discord_body (concat lines)), Sleep 16,
         Post (get_discord_body (concat lines)), Sleep 30,
         Post (get_discord_body (concat lines))], rs)"
  using assms
  by (simp add: send_discord_webhook_def plain_response_def then_continue_def raise_for_status_def
        time_sleep_def)

lemma rate_limits_count_as_attempts:
  assumes "1 \<le> sleep_max"
  shows "send_discord_webhook sleep_max
     (plain_response 429 # plain_response 429 # plain_response 429 # plain_response 429
        # plain_response 429 # plain_response 503 # rs) lines
     = (Raised (HTTPError 503),
        [Post (get_discord_body (concat lines)), Sleep 1,
         Post (get_discord_body (concat lines)), Sleep 1,
         Post (get_discord_body (concat lines)), Sleep 1,
         Post (get_discord_body (concat lines)), Sleep 1,
         Post (get_discord_body (concat lines)), Sleep 1,
         Post (get_discord_body (concat lines))], rs)"
  using assms
  by (simp add: send_discord_webhook_def plain_response_def then_continue_def raise_for_status_def
        retry_after_of_def time_sleep_def)

lemma error_status_raises:
  assumes "400 \<le> status_code resp" and "status_code resp < 600" and "status_code resp \<noteq> 429"
    and "status_code resp \<notin> {500, 502, 503, 504}"
  shows "webhook_loop sleep_max attempt b (Reply resp # rs)
       = (Raised (HTTPError (status_code resp)), [Post b], rs)"
  using assms by (simp add: raise_for_status_def)

text \<open>
  A status below 400 other than 200 and 204 is no error for \<^verbatim>\<open>raise_for_status\<close>: the loop goes
  round and posts the body again, without sleeping.
\<close>

lemma other_status_posted_again:
  assumes "status_code resp < 400" and "status_code resp \<noteq> 200" and "status_code resp \<noteq> 204"
  shows "webhook_loop sleep_max attempt b (Reply resp # rs)
       = then_continue [Post b] (webhook_loop sleep_max (attempt + 1) b rs)"
  using assms by (simp add: raise_for_status_def)

text \<open>
  Claim C9 says that every status other than 200, 204, 429 and the retried server errors
  surfaces an error immediately. On a 202 followed by a 204 the code raises nothing: it posts
  the message twice and returns.
\<close>

theorem accepted_status_posted_again:
  "send_discord_webhook sleep_max [plain_response 202, plain_response 204] [ascii ''hi'']
     = (Returned,
        [Post (get_discord_body (ascii ''hi'')), Post (get_discord_body (ascii ''hi''))], [])"
  by (simp add: send_discord_webhook_def plain_response_def then_continue_def raise_for_status_def)

end
